theory Spec2Isabelle
  imports Main
begin

section \<open>Errors raised by the report generator\<close>

text \<open>
  Every exception the modelled functions can raise is a value of this type; a function that
  can raise returns \<open>error + 'a\<close> with \<open>Inl\<close> for the exception.
  \<open>DuplicateReference line n first\<close> is the \<open>ValueError\<close> "Line \<open>line\<close>: Duplicate
  reference [\<open>n\<close>] (already used on line \<open>first\<close>)"; \<open>ParseError line\<close> is any other
  \<open>ValueError\<close> the markup parser raises with a line number.
  \<open>NonFinite\<close> marks a numeric string that denotes NaN or Infinity: Python's Decimal
  accepts those, the model of Decimal below holds finite numbers only and stops there.
\<close>

datatype error =
    InvalidOperation
  | DivisionByZero
  | NonFinite
  | ValueError
  | IndexError
  | KeyError
  | RecursionError
  | DuplicateReference nat nat nat
  | ParseError nat

section \<open>Python's Decimal under the default context\<close>

text \<open>
  A finite Decimal is a signed integer coefficient and an exponent; its value is
  \<open>coeff * 10 ^ expo\<close>. The program never changes the decimal context, so every
  arithmetic result is rounded to 28 significant digits with ROUND_HALF_EVEN, and
  \<open>quantize\<close> rounds with ROUND_HALF_EVEN as well. The exponent limits of the context
  (Emax = 999999, Emin = -999999) and the sign of zero are not modelled.
\<close>

datatype decimal = Dec (coeff: int) (expo: int)

fun ndigits :: "nat \<Rightarrow> nat" where
  "ndigits n = (if n < 10 then 1 else Suc (ndigits (n div 10)))"

declare ndigits.simps [simp del]

text \<open>Drop the last \<open>k\<close> digits of a coefficient, rounding half to even.\<close>

definition round_half_even :: "int \<Rightarrow> nat \<Rightarrow> int" where
  "round_half_even c k =
     (let p = 10 ^ k; q = \<bar>c\<bar> div p; r = \<bar>c\<bar> mod p
      in sgn c * (if p < 2 * r \<or> (2 * r = p \<and> odd q) then q + 1 else q))"

definition prec :: nat where
  "prec = 28"

definition ctx_fix :: "decimal \<Rightarrow> decimal" where
  "ctx_fix d =
     (let n = ndigits (nat \<bar>coeff d\<bar>)
      in if n \<le> prec then d
         else let k = n - prec; c = round_half_even (coeff d) k
              in if ndigits (nat \<bar>c\<bar>) > prec then Dec (c div 10) (expo d + int k + 1)
                 else Dec c (expo d + int k))"

definition dmul :: "decimal \<Rightarrow> decimal \<Rightarrow> decimal" where
  "dmul x y = ctx_fix (Dec (coeff x * coeff y) (expo x + expo y))"

definition dadd :: "decimal \<Rightarrow> decimal \<Rightarrow> decimal" where
  "dadd x y =
     (let e = min (expo x) (expo y)
      in ctx_fix (Dec (coeff x * 10 ^ nat (expo x - e) + coeff y * 10 ^ nat (expo y - e)) e))"

definition dneg :: "decimal \<Rightarrow> decimal" where
  "dneg x = ctx_fix (Dec (- coeff x) (expo x))"

definition dsub :: "decimal \<Rightarrow> decimal \<Rightarrow> decimal" where
  "dsub x y = dadd x (Dec (- coeff y) (expo y))"

text \<open>
  The loop of \<open>__truediv__\<close> for an exact quotient:
  \<^verbatim>\<open>while exp < ideal_exp and coeff % 10 == 0: coeff //= 10; exp += 1\<close>
\<close>

function strip_zeros :: "int \<Rightarrow> int \<Rightarrow> int \<Rightarrow> int \<times> int" where
  "strip_zeros c e ideal =
     (if e < ideal \<and> c mod 10 = 0 then strip_zeros (c div 10) (e + 1) ideal else (c, e))"
  by pat_completeness auto
termination
  by (relation "measure (\<lambda>(c, e, ideal). nat (ideal - e))") auto

declare strip_zeros.simps [simp del]

definition ddiv :: "decimal \<Rightarrow> decimal \<Rightarrow> error + decimal" where
  "ddiv x y =
     (if coeff y = 0 then (if coeff x = 0 then Inl InvalidOperation else Inl DivisionByZero)
      else if coeff x = 0 then Inr (ctx_fix (Dec 0 (expo x - expo y)))
      else
        let shift = int (ndigits (nat \<bar>coeff y\<bar>)) - int (ndigits (nat \<bar>coeff x\<bar>)) + int prec + 1;
            e = expo x - expo y - shift;
            a = (if 0 \<le> shift then \<bar>coeff x\<bar> * 10 ^ nat shift else \<bar>coeff x\<bar>);
            b = (if 0 \<le> shift then \<bar>coeff y\<bar> else \<bar>coeff y\<bar> * 10 ^ nat (- shift));
            q = a div b;
            r = a mod b;
            (q', e') = (if r \<noteq> 0 then (if q mod 5 = 0 then q + 1 else q, e)
                        else strip_zeros q e (expo x - expo y))
        in Inr (ctx_fix (Dec (sgn (coeff x) * sgn (coeff y) * q') e')))"

definition adjusted :: "decimal \<Rightarrow> int" where
  "adjusted d = int (ndigits (nat \<bar>coeff d\<bar>)) + expo d - 1"

definition rescale :: "decimal \<Rightarrow> int \<Rightarrow> decimal" where
  "rescale d e =
     (if e \<le> expo d then Dec (coeff d * 10 ^ nat (expo d - e)) e
      else Dec (round_half_even (coeff d) (nat (e - expo d))) e)"

text \<open>
  \<open>self.quantize(exp)\<close>: the result has the exponent of \<open>exp\<close>; InvalidOperation
  (trapped by the default context, so raised) when it would need more than 28 digits.
\<close>

definition quantize :: "decimal \<Rightarrow> decimal \<Rightarrow> error + decimal" where
  "quantize d ex =
     (if coeff d = 0 then Inr (Dec 0 (expo ex))
      else if adjusted d - expo ex + 1 > int prec then Inl InvalidOperation
      else let ans = rescale d (expo ex)
           in if ndigits (nat \<bar>coeff ans\<bar>) > prec then Inl InvalidOperation else Inr ans)"

section \<open>Utilities: \<open>apply_operation\<close>\<close>

text \<open>
  The body of the loop of \<open>apply_operation\<close> up to the rounding: the chain of
  \<open>if operator == ...\<close> that computes \<open>new_value\<close>.
\<close>

definition new_value :: "string \<Rightarrow> decimal \<Rightarrow> decimal \<Rightarrow> decimal" where
  "new_value operator operand v =
     (if operator = ''*'' then dmul v operand
      else if operator = ''/'' then
        (if coeff operand \<noteq> 0 then (case ddiv v operand of Inr r \<Rightarrow> r | Inl _ \<Rightarrow> Dec 0 0)
         else Dec 0 0)
      else if operator = ''+'' then dadd v operand
      else if operator = ''-'' then dsub v operand
      else if operator = ''%'' then dmul v operand
      else v)"

fun apply_operation :: "decimal list \<Rightarrow> string \<times> decimal \<Rightarrow> error + decimal list" where
  "apply_operation [] operation = Inr []"
| "apply_operation (v # vs) operation =
     (case quantize (new_value (fst operation) (snd operation) v) (Dec 1 (- 2)) of
        Inl e \<Rightarrow> Inl e
      | Inr r \<Rightarrow> (case apply_operation vs operation of
                    Inl e \<Rightarrow> Inl e
                  | Inr rs \<Rightarrow> Inr (r # rs)))"

text \<open>
  The rounding the specification asks for, written from its words: round to the nearest
  multiple of \<open>10 ^ k\<close>, a tie going away from zero.
\<close>

definition round_ties_away :: "int \<Rightarrow> nat \<Rightarrow> int" where
  "round_ties_away c k =
     (let p = 10 ^ k; q = \<bar>c\<bar> div p; r = \<bar>c\<bar> mod p
      in sgn c * (if p \<le> 2 * r then q + 1 else q))"

definition quantize_ties_away :: "decimal \<Rightarrow> decimal" where
  "quantize_ties_away d =
     (if - 2 \<le> expo d then Dec (coeff d * 10 ^ nat (expo d + 2)) (- 2)
      else Dec (round_ties_away (coeff d) (nat (- 2 - expo d))) (- 2))"

text \<open>
  What the code's rounding achieves, stated without reference to how it is computed:
  \<open>r\<close> is a whole number of cents; it is \<open>v\<close> itself when \<open>v\<close> has at most two
  decimal places, and otherwise it lies within half a cent of \<open>v\<close>, with an even number of
  cents when \<open>v\<close> is exactly half way between two cents.
\<close>

definition nearest_cent_half_even :: "decimal \<Rightarrow> decimal \<Rightarrow> bool" where
  "nearest_cent_half_even v r =
     (expo r = - 2 \<and>
      (if - 2 \<le> expo v then coeff r = coeff v * 10 ^ nat (expo v + 2)
       else let p = 10 ^ nat (- 2 - expo v)
            in 2 * \<bar>coeff r * p - coeff v\<bar> \<le> p \<and>
               (2 * \<bar>coeff r * p - coeff v\<bar> = p \<longrightarrow> even (coeff r))))"

section \<open>Python strings\<close>

text \<open>
  \<open>str.split(sep)\<close> for a separator of one character: the pieces between the
  occurrences of \<open>sep\<close>, always at least one piece.
\<close>

fun split_on :: "char \<Rightarrow> string \<Rightarrow> string list" where
  "split_on sep [] = [[]]"
| "split_on sep (c # cs) =
     (if c = sep then [] # split_on sep cs
      else (case split_on sep cs of
              [] \<Rightarrow> [[c]]
            | p # ps \<Rightarrow> (c # p) # ps))"

text \<open>
  A \<open>string\<close> is a Python \<open>str\<close> whose code points are below 256, one \<open>char\<close> for each.
  The characters of that range for which \<open>str.isspace\<close> holds are the ASCII ones and
  U+0085 and U+00A0; \<open>str.strip()\<close> removes them from both ends, the \<open>\s\<close> of a regular
  expression matches them, and \<open>Decimal(str)\<close> strips them.
\<close>

definition is_space :: "char \<Rightarrow> bool" where
  "is_space c = (c \<in> set [CHR '' '', CHR 0x09, CHR 0x0A, CHR 0x0B, CHR 0x0C, CHR 0x0D,
                            CHR 0x1C, CHR 0x1D, CHR 0x1E, CHR 0x1F, CHR 0x85, CHR 0xA0])"

definition strip :: "string \<Rightarrow> string" where
  "strip s = rev (dropWhile is_space (rev (dropWhile is_space s)))"

definition is_digit :: "char \<Rightarrow> bool" where
  "is_digit c = (48 \<le> (of_char c :: nat) \<and> (of_char c :: nat) \<le> 57)"

text \<open>\<open>int(s)\<close> for a string of ASCII digits.\<close>

definition nat_of_digits :: "string \<Rightarrow> nat" where
  "nat_of_digits ds = foldl (\<lambda>n c. 10 * n + (of_char c - 48)) 0 ds"

definition to_lower :: "char \<Rightarrow> char" where
  "to_lower c = (if 65 \<le> (of_char c :: nat) \<and> (of_char c :: nat) \<le> 90
                 then char_of (of_char c + 32 :: nat) else c)"

text \<open>
  The text of an integer, \<open>str(n)\<close>: the decimal digits, after a minus sign for a negative
  number. It is the \<open><int>\<close> of the value format \<open><int>/<int>\<close>.
\<close>

function digits_of :: "nat \<Rightarrow> string" where
  "digits_of n = (if n < 10 then [char_of (48 + n)]
                  else digits_of (n div 10) @ [char_of (48 + n mod 10)])"
  by pat_completeness auto
termination
  by (relation "measure id") auto

declare digits_of.simps [simp del]

definition int_str :: "int \<Rightarrow> string" where
  "int_str n = (if n < 0 then CHR ''-'' # digits_of (nat (- n)) else digits_of (nat n))"

section \<open>\<open>Decimal(str)\<close>\<close>

text \<open>
  The constructor strips the string, removes underscores and matches it against
  \<^verbatim>\<open>[-+]? ( (?=\d|\.\d) \d* (\.\d*)? (E[-+]?\d+)? | Inf(inity)? | s?NaN\d* ) \Z\<close>
  (letters in either case). No match raises InvalidOperation. The conversion is exact.
\<close>

definition is_special :: "string \<Rightarrow> bool" where
  "is_special s =
     (let l = map to_lower s
      in l = ''inf'' \<or> l = ''infinity'' \<or>
         (take 3 l = ''nan'' \<and> list_all is_digit (drop 3 l)) \<or>
         (take 4 l = ''snan'' \<and> list_all is_digit (drop 4 l)))"

text \<open>The exponent part: nothing, or \<open>E\<close>, an optional sign and at least one digit.\<close>

definition parse_exp :: "string \<Rightarrow> int option" where
  "parse_exp s =
     (case s of
        [] \<Rightarrow> Some 0
      | c # r \<Rightarrow>
          if to_lower c \<noteq> CHR ''e'' then None
          else let neg = (r \<noteq> [] \<and> hd r = CHR ''-'');
                   ds = (if r \<noteq> [] \<and> (hd r = CHR ''-'' \<or> hd r = CHR ''+'') then tl r else r)
               in if ds = [] \<or> \<not> list_all is_digit ds then None
                  else Some ((if neg then - 1 else 1) * int (nat_of_digits ds)))"

definition Decimal_of_str :: "string \<Rightarrow> error + decimal" where
  "Decimal_of_str v =
     (let s = filter (\<lambda>c. c \<noteq> CHR ''_'') (strip v);
          neg = (s \<noteq> [] \<and> hd s = CHR ''-'');
          s1 = (if s \<noteq> [] \<and> (hd s = CHR ''-'' \<or> hd s = CHR ''+'') then tl s else s)
      in if is_special s1 then Inl NonFinite
         else
           let intpart = takeWhile is_digit s1;
               s2 = dropWhile is_digit s1;
               dot = (s2 \<noteq> [] \<and> hd s2 = CHR ''.'');
               fracpart = (if dot then takeWhile is_digit (tl s2) else []);
               s3 = (if dot then dropWhile is_digit (tl s2) else s2)
           in if intpart = [] \<and> fracpart = [] then Inl InvalidOperation
              else (case parse_exp s3 of
                      None \<Rightarrow> Inl InvalidOperation
                    | Some e \<Rightarrow>
                        Inr (Dec ((if neg then - 1 else 1) * int (nat_of_digits (intpart @ fracpart)))
                               (e - int (length fracpart)))))"

section \<open>Utilities: \<open>parse_gnucash_value\<close>\<close>

definition parse_gnucash_value :: "string \<Rightarrow> error + decimal" where
  "parse_gnucash_value value_str =
     (let parts = split_on CHR ''/'' value_str
      in if length parts = 2 then
           (case Decimal_of_str (parts ! 0) of
              Inl e \<Rightarrow> Inl e
            | Inr numerator \<Rightarrow>
                (case Decimal_of_str (parts ! 1) of
                   Inl e \<Rightarrow> Inl e
                 | Inr denominator \<Rightarrow>
                     (case ddiv numerator denominator of
                        Inl e \<Rightarrow> Inl e
                      | Inr v \<Rightarrow> quantize v (Dec 1 (- 2)))))
         else Inr (Dec 0 0))"

section \<open>Markup parser: \<open>parse_operation\<close> and the operator of an ACCOUNT line\<close>

text \<open>
  \<open>parse_operation\<close> strips its argument and matches \<^verbatim>\<open>^([*/%+-])\s*(.+)\<close>: an operator
  character, white space, and the rest up to a line feed. The result is \<open>None\<close> without a
  match; \<open>Decimal\<close> may raise on the operand.
\<close>

definition parse_operation :: "string \<Rightarrow> error + (string \<times> decimal) option" where
  "parse_operation op_str =
     (case strip op_str of
        [] \<Rightarrow> Inr None
      | c # r \<Rightarrow>
          if c \<notin> set ''*/%+-'' then Inr None
          else
            let group2 = takeWhile (\<lambda>x. x \<noteq> CHR 0x0A) (dropWhile is_space r)
            in if group2 = [] then Inr None
               else
                 let value_str = strip group2
                 in if value_str \<noteq> [] \<and> last value_str = CHR ''%'' then
                      (case Decimal_of_str (butlast value_str) of
                         Inl e \<Rightarrow> Inl e
                       | Inr d \<Rightarrow>
                           (case ddiv d (Dec 100 0) of
                              Inl e \<Rightarrow> Inl e
                            | Inr v \<Rightarrow> Inr (Some ([c], v))))
                    else
                      (case Decimal_of_str value_str of
                         Inl e \<Rightarrow> Inl e
                       | Inr v \<Rightarrow> Inr (Some ([c], v))))"

text \<open>\<open>s.split(c, 1)\<close> for a character \<open>c\<close> that occurs in \<open>s\<close>: the text before its first
  occurrence and the text after it.\<close>

definition split_first :: "char \<Rightarrow> string \<Rightarrow> string \<times> string" where
  "split_first c s = (takeWhile (\<lambda>x. x \<noteq> c) s, tl (dropWhile (\<lambda>x. x \<noteq> c) s))"

text \<open>
  The loop of \<open>parse_report_definition\<close> over the operators:
  \<^verbatim>\<open>
  operation = None; guid = guid_and_op
  for op in ['*', '/', '+', '-', '%']:
      if op in guid_and_op:
          parts = guid_and_op.split(op, 1)
          guid = parts[0].strip()
          operation = parse_operation(op + parts[1])
          break
  \<close>
  The first argument is the list of operators still to try.
\<close>

fun find_operation :: "char list \<Rightarrow> string \<Rightarrow> error + string \<times> (string \<times> decimal) option" where
  "find_operation [] guid_and_op = Inr (guid_and_op, None)"
| "find_operation (op # ops) guid_and_op =
     (if op \<in> set guid_and_op then
        (case parse_operation (op # snd (split_first op guid_and_op)) of
           Inl e \<Rightarrow> Inl e
         | Inr operation \<Rightarrow> Inr (strip (fst (split_first op guid_and_op)), operation))
      else find_operation ops guid_and_op)"

definition account_operation :: "string \<Rightarrow> error + string \<times> (string \<times> decimal) option" where
  "account_operation guid_and_op = find_operation ''*/+-%'' guid_and_op"

text \<open>The operator the specification describes: the first operator character met when the
  substring is read from left to right.\<close>

definition first_operator_by_position :: "string \<Rightarrow> char option" where
  "first_operator_by_position s = find (\<lambda>c. c \<in> set ''*/+-%'') s"

section \<open>Period calendar: \<open>get_period_ranges\<close>\<close>

text \<open>
  A \<open>datetime.date\<close>. Dates compare by year, then month, then day. \<open>date.replace\<close>
  builds a new date and raises ValueError unless the year is in 1..9999, the month in 1..12
  and the day in 1..\<open>calendar.monthrange(year, month)[1]\<close>.
\<close>

record date =
  year :: int
  month :: int
  day :: int

definition is_leap :: "int \<Rightarrow> bool" where
  "is_leap y = (y mod 4 = 0 \<and> (y mod 100 \<noteq> 0 \<or> y mod 400 = 0))"

definition days_in_month :: "int \<Rightarrow> int \<Rightarrow> int" where
  "days_in_month y m =
     (if m = 2 then (if is_leap y then 29 else 28)
      else if m = 4 \<or> m = 6 \<or> m = 9 \<or> m = 11 then 30 else 31)"

definition make_date :: "int \<Rightarrow> int \<Rightarrow> int \<Rightarrow> error + date" where
  "make_date y m d =
     (if 1 \<le> y \<and> y \<le> 9999 \<and> 1 \<le> m \<and> m \<le> 12 \<and> 1 \<le> d \<and> d \<le> days_in_month y m
      then Inr \<lparr>year = y, month = m, day = d\<rparr> else Inl ValueError)"

definition date_le :: "date \<Rightarrow> date \<Rightarrow> bool" where
  "date_le a b =
     (year a < year b \<or> (year a = year b \<and> (month a < month b \<or>
        (month a = month b \<and> day a \<le> day b))))"

definition date_max :: "date \<Rightarrow> date \<Rightarrow> date" where
  "date_max a b = (if date_le b a then a else b)"

definition date_min :: "date \<Rightarrow> date \<Rightarrow> date" where
  "date_min a b = (if date_le a b then a else b)"

text \<open>
  The monthly loop, with \<open>current_date\<close> as its state:
  \<^verbatim>\<open>
  while current_date <= end_date:
      period_start = current_date.replace(day=1)
      last_day = calendar.monthrange(current_date.year, current_date.month)[1]
      period_end = current_date.replace(day=last_day)
      period_start = max(period_start, start_date)
      period_end = min(period_end, end_date)
      ranges.append((period_start, period_end))
      if current_date.month == 12:
          current_date = current_date.replace(year=current_date.year + 1, month=1)
      else:
          current_date = current_date.replace(month=current_date.month + 1)
  \<close>
\<close>

function monthly_ranges :: "date \<Rightarrow> date \<Rightarrow> date \<Rightarrow> error + (date \<times> date) list" where
  "monthly_ranges current_date start_date end_date =
     (if date_le current_date end_date then
        (case make_date (year current_date) (month current_date) 1 of
           Inl e \<Rightarrow> Inl e
         | Inr period_start \<Rightarrow>
             (case make_date (year current_date) (month current_date)
                     (days_in_month (year current_date) (month current_date)) of
                Inl e \<Rightarrow> Inl e
              | Inr period_end \<Rightarrow>
                  (case (if month current_date = 12
                         then make_date (year current_date + 1) 1 (day current_date)
                         else make_date (year current_date) (month current_date + 1)
                                (day current_date)) of
                     Inl e \<Rightarrow> Inl e
                   | Inr next_date \<Rightarrow>
                       (case monthly_ranges next_date start_date end_date of
                          Inl e \<Rightarrow> Inl e
                        | Inr ranges \<Rightarrow>
                            Inr ((date_max period_start start_date,
                                  date_min period_end end_date) # ranges)))))
      else Inr [])"
  by pat_completeness auto
termination
  by (relation "measures [\<lambda>(c, s, e). nat (year e - year c + 1), \<lambda>(c, s, e). nat (13 - month c)]")
     (auto simp: date_le_def make_date_def split: if_splits)

declare monthly_ranges.simps [simp del]

text \<open>The quarterly loop, with the same state.\<close>

function quarterly_ranges :: "date \<Rightarrow> date \<Rightarrow> date \<Rightarrow> error + (date \<times> date) list" where
  "quarterly_ranges current_date start_date end_date =
     (if date_le current_date end_date then
        (let quarter = (month current_date - 1) div 3 + 1;
             first_month = (quarter - 1) * 3 + 1;
             last_month = quarter * 3
         in case make_date (year current_date) first_month 1 of
              Inl e \<Rightarrow> Inl e
            | Inr period_start \<Rightarrow>
                (case make_date (year current_date) last_month
                        (days_in_month (year current_date) last_month) of
                   Inl e \<Rightarrow> Inl e
                 | Inr period_end \<Rightarrow>
                     (case (if quarter = 4
                            then make_date (year current_date + 1) 1 (day current_date)
                            else make_date (year current_date) (last_month + 1)
                                   (day current_date)) of
                        Inl e \<Rightarrow> Inl e
                      | Inr next_date \<Rightarrow>
                          (case quarterly_ranges next_date start_date end_date of
                             Inl e \<Rightarrow> Inl e
                           | Inr ranges \<Rightarrow>
                               Inr ((date_max period_start start_date,
                                     date_min period_end end_date) # ranges)))))
      else Inr [])"
  by pat_completeness auto
termination
  by (relation "measures [\<lambda>(c, s, e). nat (year e - year c + 1), \<lambda>(c, s, e). nat (13 - month c)]")
     (auto simp: date_le_def make_date_def Let_def split: if_splits)

declare quarterly_ranges.simps [simp del]

definition get_period_ranges :: "date \<Rightarrow> date \<Rightarrow> string \<Rightarrow> error + (date \<times> date) list" where
  "get_period_ranges start_date end_date period_type =
     (if period_type = ''m'' then monthly_ranges start_date start_date end_date
      else if period_type = ''q'' then quarterly_ranges start_date start_date end_date
      else Inr [])"

section \<open>Report elements and stored values\<close>

text \<open>
  The classes \<open>ReportElement\<close> and its subclasses: the common fields \<open>line_num\<close> and
  \<open>reference\<close>, and the fields of the subclass as \<open>kind\<close>. The elements are Python objects
  without \<open>__eq__\<close>: two elements are the same element only if they are the same object, and
  every line of a definition creates a new one. An element is therefore identified by its
  position in the element list, \<open>elements.index(elem)\<close>.
\<close>

record account_element =
  guid :: string
  label :: "string option"
  operation :: "(string \<times> decimal) option"
  recursive :: bool
  filter_guid :: "string option"
  regex_include :: "string list"
  regex_exclude :: "string list"

datatype element_kind =
    SectionElement string
  | TitleElement string
  | AccountElement account_element
  | PlaceholderElement string "decimal list"
  | SumElement string
  | CalcElement string string
  | BlankElement

record report_element =
  line_num :: nat
  reference :: "nat option"
  kind :: element_kind

text \<open>
  The dictionary \<open>stored_values\<close> of \<open>process_report_elements\<close>, keyed by element. For an
  Account element it holds the dictionary returned by \<open>calculate_account_values\<close>, for a Sum or
  Calc element the list of values; the two kinds of entry are kept in two maps.
\<close>

record account_result =
  raw :: "decimal list"
  filtered :: "decimal list option"
  regex_filtered :: "decimal list option"
  final :: "decimal list"
  valid :: bool

record stored_values =
  account_values :: "nat \<rightharpoonup> account_result"
  series_values :: "nat \<rightharpoonup> decimal list"

section \<open>Calculator: \<open>calculate_sum_values\<close>\<close>

text \<open>
  The inner loop \<^verbatim>\<open>for period_idx in range(num_periods): sum_values[period_idx] += values[period_idx]\<close>,
  with the index as first argument; reading past the end of \<open>values\<close> raises IndexError.
\<close>

function add_values :: "nat \<Rightarrow> nat \<Rightarrow> decimal list \<Rightarrow> decimal list \<Rightarrow> error + decimal list" where
  "add_values period_idx num_periods sum_values vals =
     (if period_idx < num_periods then
        (if period_idx < length vals \<and> period_idx < length sum_values then
           add_values (Suc period_idx) num_periods
             (sum_values[period_idx := dadd (sum_values ! period_idx) (vals ! period_idx)]) vals
         else Inl IndexError)
      else Inr sum_values)"
  by pat_completeness auto
termination
  by (relation "measure (\<lambda>(p, n, s, v). n - p)") auto

declare add_values.simps [simp del]

text \<open>
  The loop \<^verbatim>\<open>for i in range(elem_idx - 1, -1, -1)\<close>: the first argument is \<open>i + 1\<close>. A
  Title, Sum or Calc element ends the loop (\<open>break\<close>), a Section or Blank element is passed
  over (\<open>continue\<close>), an Account element adds its stored \<open>final\<close> series if it is in
  \<open>stored_values\<close>, a Placeholder element adds its own values.
\<close>

fun sum_scan :: "nat \<Rightarrow> report_element list \<Rightarrow> stored_values \<Rightarrow> nat \<Rightarrow> decimal list
                 \<Rightarrow> error + decimal list" where
  "sum_scan 0 elements stored num_periods sum_values = Inr sum_values"
| "sum_scan (Suc i) elements stored num_periods sum_values =
     (case kind (elements ! i) of
        TitleElement _ \<Rightarrow> Inr sum_values
      | SumElement _ \<Rightarrow> Inr sum_values
      | CalcElement _ _ \<Rightarrow> Inr sum_values
      | SectionElement _ \<Rightarrow> sum_scan i elements stored num_periods sum_values
      | BlankElement \<Rightarrow> sum_scan i elements stored num_periods sum_values
      | AccountElement _ \<Rightarrow>
          (case account_values stored i of
             None \<Rightarrow> sum_scan i elements stored num_periods sum_values
           | Some r \<Rightarrow>
               (case add_values 0 num_periods sum_values (final r) of
                  Inl e \<Rightarrow> Inl e
                | Inr s \<Rightarrow> sum_scan i elements stored num_periods s))
      | PlaceholderElement _ vals \<Rightarrow>
          (case add_values 0 num_periods sum_values vals of
             Inl e \<Rightarrow> Inl e
           | Inr s \<Rightarrow> sum_scan i elements stored num_periods s))"

definition calculate_sum_values :: "nat \<Rightarrow> report_element list \<Rightarrow> stored_values \<Rightarrow> nat
                 \<Rightarrow> error + decimal list" where
  "calculate_sum_values elem_idx elements stored num_periods =
     sum_scan elem_idx elements stored num_periods (replicate num_periods (Dec 0 0))"

text \<open>
  The scope of a SUM as the specification words it: going backward from the element just
  before the SUM, up to and excluding the first Title, Sum or Calc element; of these elements
  the Account elements contribute their stored \<open>final\<close> series and the Placeholder elements
  their literal values. \<open>sum_spec\<close> adds the contributions for one period in that order,
  starting from \<open>Decimal('0')\<close>.
\<close>

definition is_scope_boundary :: "element_kind \<Rightarrow> bool" where
  "is_scope_boundary k =
     (case k of TitleElement _ \<Rightarrow> True | SumElement _ \<Rightarrow> True | CalcElement _ _ \<Rightarrow> True
      | _ \<Rightarrow> False)"

definition sum_scope :: "nat \<Rightarrow> report_element list \<Rightarrow> nat list" where
  "sum_scope elem_idx elements =
     takeWhile (\<lambda>i. \<not> is_scope_boundary (kind (elements ! i))) (rev [0..<elem_idx])"

definition scope_series :: "report_element list \<Rightarrow> stored_values \<Rightarrow> nat \<Rightarrow> decimal list option" where
  "scope_series elements stored i =
     (case kind (elements ! i) of
        AccountElement _ \<Rightarrow> map_option final (account_values stored i)
      | PlaceholderElement _ vals \<Rightarrow> Some vals
      | _ \<Rightarrow> None)"

definition sum_scope_series :: "nat \<Rightarrow> report_element list \<Rightarrow> stored_values \<Rightarrow> decimal list list" where
  "sum_scope_series elem_idx elements stored =
     List.map_filter (scope_series elements stored) (sum_scope elem_idx elements)"

definition sum_spec :: "nat \<Rightarrow> report_element list \<Rightarrow> stored_values \<Rightarrow> nat \<Rightarrow> decimal" where
  "sum_spec elem_idx elements stored p =
     foldl dadd (Dec 0 0) (map (\<lambda>vals. vals ! p) (sum_scope_series elem_idx elements stored))"

text \<open>A small report: a title, an account row, a placeholder row, a blank row and a SUM.\<close>

definition example_account :: account_element where
  "example_account = \<lparr>guid = ''a1'', label = None, operation = None, recursive = False,
     filter_guid = None, regex_include = [], regex_exclude = []\<rparr>"

definition example_elements :: "report_element list" where
  "example_elements =
     [\<lparr>line_num = 1, reference = None, kind = TitleElement ''Income''\<rparr>,
      \<lparr>line_num = 2, reference = Some 1, kind = AccountElement example_account\<rparr>,
      \<lparr>line_num = 3, reference = None,
        kind = PlaceholderElement ''Bonus'' [Dec 100 0, Dec 250 (- 1)]\<rparr>,
      \<lparr>line_num = 4, reference = None, kind = BlankElement\<rparr>,
      \<lparr>line_num = 5, reference = None, kind = SumElement ''Total''\<rparr>]"

definition example_stored :: stored_values where
  "example_stored =
     \<lparr>account_values =
        [1 \<mapsto> \<lparr>raw = [Dec 1000 (- 2), Dec 2000 (- 2)], filtered = None, regex_filtered = None,
                final = [Dec 1000 (- 2), Dec 2000 (- 2)], valid = True\<rparr>],
      series_values = Map.empty\<rparr>"

section \<open>XML reader: accounts and cache keys\<close>

text \<open>
  The class \<open>Account\<close>; its fields \<open>name\<close> and \<open>guid\<close> are \<open>acc_name\<close> and
  \<open>acc_guid\<close> here. The dictionary \<open>accounts\<close> maps a guid to its account; it is kept as
  the list of its items in the order of insertion, which is the order \<open>accounts.items()\<close>
  iterates in, and \<open>map_of\<close> is the lookup.
\<close>

record account =
  acc_name :: string
  acc_guid :: string
  parent_guid :: "string option"
  account_type :: "string option"

text \<open>
  The class \<open>CacheKey\<close>; its fields carry the prefix \<open>ck_\<close>. The constructor turns an
  empty pattern list into \<open>None\<close> and any other list into a tuple; \<open>__eq__\<close> and
  \<open>__hash__\<close> compare the four fields, which is the equality of the record.
\<close>

record cache_key =
  ck_account_guid :: string
  ck_filter_guid :: "string option"
  ck_regex_include :: "string list option"
  ck_regex_exclude :: "string list option"

definition CacheKey :: "string \<Rightarrow> string option \<Rightarrow> string list \<Rightarrow> string list \<Rightarrow> cache_key" where
  "CacheKey account_guid fg incl excl =
     \<lparr>ck_account_guid = account_guid, ck_filter_guid = fg,
      ck_regex_include = (if incl \<noteq> [] then Some incl else None),
      ck_regex_exclude = (if excl \<noteq> [] then Some excl else None)\<rparr>"

text \<open>The truth value Python gives to an optional string: \<open>None\<close> and \<open>''\<close> are false.\<close>

definition truthy :: "string option \<Rightarrow> bool" where
  "truthy s = (case s of None \<Rightarrow> False | Some t \<Rightarrow> t \<noteq> [])"

text \<open>The class \<open>ReportConfig\<close>.\<close>

record report_config =
  start_date :: "date option"
  end_date :: "date option"
  period :: string
  account_name :: string
  gnucash_file :: "string option"
  csv_file :: "string option"
  invert_income :: bool

section \<open>Calculator: \<open>calculate_account_values\<close>\<close>

text \<open>
  \<open>get_descendant_guids\<close>: the nested function \<open>add_children\<close> and its loop over
  \<open>accounts.items()\<close>. The recursion has no guard against a cycle of parents; Python ends it
  with RecursionError when the call stack is exhausted. The first argument is the number of
  calls of \<open>add_children\<close> the stack still has room for.
\<close>

function add_children :: "nat \<Rightarrow> (string \<times> account) list \<Rightarrow> string \<Rightarrow> string list
                            \<Rightarrow> error + string list"
  and children_loop :: "nat \<Rightarrow> (string \<times> account) list \<Rightarrow> (string \<times> account) list \<Rightarrow> string
                            \<Rightarrow> string list \<Rightarrow> error + string list" where
  "add_children 0 accounts parent guids = Inl RecursionError"
| "add_children (Suc depth) accounts parent guids =
     children_loop depth accounts accounts parent guids"
| "children_loop depth accounts [] parent guids = Inr guids"
| "children_loop depth accounts (item # rest) parent guids =
     (if parent_guid (snd item) = Some parent then
        (case add_children depth accounts (fst item) (guids @ [fst item]) of
           Inl e \<Rightarrow> Inl e
         | Inr guids' \<Rightarrow> children_loop depth accounts rest parent guids')
      else children_loop depth accounts rest parent guids)"
  by pat_completeness auto
termination
  by (relation "measures [\<lambda>x. case x of Inl (d, _) \<Rightarrow> d | Inr (d, _) \<Rightarrow> d,
                          \<lambda>x. case x of Inl _ \<Rightarrow> 0 | Inr (_, _, items, _) \<Rightarrow> Suc (length items)]")
     auto

definition get_descendant_guids :: "string \<Rightarrow> (string \<times> account) list \<Rightarrow> nat \<Rightarrow> error + string list" where
  "get_descendant_guids account_guid accounts recursion_limit =
     add_children recursion_limit accounts account_guid [account_guid]"

text \<open>
  \<open>transaction_cache.get(guid, {}).get(period_idx, Decimal('0'))\<close>, and the same lookup
  in one filtered cache.
\<close>

definition cache_get :: "(nat \<rightharpoonup> decimal) \<Rightarrow> nat \<Rightarrow> decimal" where
  "cache_get cache period_idx = (case cache period_idx of None \<Rightarrow> Dec 0 0 | Some v \<Rightarrow> v)"

definition period_total :: "(string \<rightharpoonup> (nat \<rightharpoonup> decimal)) \<Rightarrow> string list \<Rightarrow> nat \<Rightarrow> decimal" where
  "period_total transaction_cache target_guids period_idx =
     foldl (\<lambda>total g. dadd total
              (case transaction_cache g of None \<Rightarrow> Dec 0 0 | Some cache \<Rightarrow> cache_get cache period_idx))
       (Dec 0 0) target_guids"

text \<open>
  \<open>calculate_account_values\<close>. The returned dictionary is the record \<open>account_result\<close>; the
  keys \<open>filtered\<close> and \<open>regex_filtered\<close> are absent (\<open>None\<close>) unless the function sets them.
  The last argument is the room left on the call stack for \<open>get_descendant_guids\<close>.
\<close>

definition calculate_account_values :: "account_element \<Rightarrow> (date \<times> date) list
    \<Rightarrow> (string \<times> account) list \<Rightarrow> report_config \<Rightarrow> (string \<rightharpoonup> (nat \<rightharpoonup> decimal))
    \<Rightarrow> (cache_key \<rightharpoonup> (nat \<rightharpoonup> decimal)) \<Rightarrow> nat \<Rightarrow> error + account_result" where
  "calculate_account_values elem period_ranges accounts config transaction_cache filtered_caches
       recursion_limit =
     (let num_periods = length period_ranges in
      case map_of accounts (guid elem) of
        None \<Rightarrow>
          Inr \<lparr>raw = replicate num_periods (Dec 0 0), filtered = None, regex_filtered = None,
               final = replicate num_periods (Dec 0 0), valid = False\<rparr>
      | Some acc \<Rightarrow>
          (case (if recursive elem then get_descendant_guids (guid elem) accounts recursion_limit
                 else Inr [guid elem]) of
             Inl e \<Rightarrow> Inl e
           | Inr target_guids \<Rightarrow>
               let invert = (invert_income config \<and> account_type acc = Some ''INCOME'');
                   totals = map (period_total transaction_cache target_guids) [0..<num_periods];
                   raw_values = (if invert then map dneg totals else totals);
                   regex = (regex_include elem \<noteq> [] \<or> regex_exclude elem \<noteq> []);
                   cache_key = CacheKey (guid elem) (filter_guid elem) (regex_include elem)
                                 (regex_exclude elem);
                   filtered_values =
                     (if truthy (filter_guid elem) \<or> regex then
                        (case filtered_caches cache_key of
                           None \<Rightarrow> None
                         | Some cache \<Rightarrow>
                             Some (map (\<lambda>period_idx.
                                          if invert then dneg (cache_get cache period_idx)
                                          else cache_get cache period_idx)
                                     [0..<num_periods]))
                      else None);
                   working_values = (case filtered_values of None \<Rightarrow> raw_values | Some vs \<Rightarrow> vs);
                   result = \<lparr>raw = raw_values,
                             filtered = (if regex then None else filtered_values),
                             regex_filtered = (if regex then filtered_values else None),
                             final = working_values, valid = True\<rparr>
               in (case operation elem of
                     None \<Rightarrow> Inr result
                   | Some opn \<Rightarrow>
                       (case apply_operation working_values opn of
                          Inl e \<Rightarrow> Inl e
                        | Inr final_values \<Rightarrow> Inr (result\<lparr>final := final_values\<rparr>)))))"

text \<open>
  A running total that adding \<open>Decimal('0')\<close> leaves as it is, digit for digit: it fits the
  precision of the context, and its exponent is not positive unless it fills the precision.
\<close>

definition zero_neutral :: "decimal \<Rightarrow> bool" where
  "zero_neutral z =
     (ndigits (nat \<bar>coeff z\<bar>) \<le> prec \<and> (expo z \<le> 0 \<or> ndigits (nat \<bar>coeff z\<bar>) = prec))"

text \<open>
  A registry with one income account, an Account element for it and an Account element whose
  id is not in the registry, and a report that holds both above a SUM.
\<close>

definition example_accounts :: "(string \<times> account) list" where
  "example_accounts =
     [(''a1'', \<lparr>acc_name = ''Salary'', acc_guid = ''a1'', parent_guid = None,
               account_type = Some ''INCOME''\<rparr>)]"

definition example_missing :: account_element where
  "example_missing = \<lparr>guid = ''zz'', label = None, operation = Some (''*'', Dec 9 (- 1)),
     recursive = True, filter_guid = None, regex_include = [], regex_exclude = []\<rparr>"

definition example_config :: report_config where
  "example_config = \<lparr>start_date = None, end_date = None, period = ''m'',
     account_name = ''name_only'', gnucash_file = None, csv_file = None, invert_income = True\<rparr>"

definition example_periods :: "(date \<times> date) list" where
  "example_periods =
     [(\<lparr>year = 2025, month = 1, day = 1\<rparr>, \<lparr>year = 2025, month = 1, day = 31\<rparr>),
      (\<lparr>year = 2025, month = 2, day = 1\<rparr>, \<lparr>year = 2025, month = 2, day = 28\<rparr>)]"

definition example_elements_missing :: "report_element list" where
  "example_elements_missing =
     [\<lparr>line_num = 1, reference = None, kind = TitleElement ''Income''\<rparr>,
      \<lparr>line_num = 2, reference = Some 1, kind = AccountElement example_account\<rparr>,
      \<lparr>line_num = 3, reference = None, kind = AccountElement example_missing\<rparr>,
      \<lparr>line_num = 4, reference = None,
        kind = PlaceholderElement ''Bonus'' [Dec 100 0, Dec 250 (- 1)]\<rparr>,
      \<lparr>line_num = 5, reference = None, kind = SumElement ''Total''\<rparr>]"

definition example_stored_missing :: stored_values where
  "example_stored_missing =
     \<lparr>account_values =
        [1 \<mapsto> \<lparr>raw = [Dec 1000 (- 2), Dec 2000 (- 2)], filtered = None, regex_filtered = None,
                final = [Dec 1000 (- 2), Dec 2000 (- 2)], valid = True\<rparr>,
         2 \<mapsto> \<lparr>raw = [Dec 0 0, Dec 0 0], filtered = None, regex_filtered = None,
                final = [Dec 0 0, Dec 0 0], valid = False\<rparr>],
      series_values = Map.empty\<rparr>"

section \<open>Properties of \<open>apply_operation\<close>\<close>

subsection \<open>Digits, rounding and division of the Decimal model\<close>

lemma ndigits_pos: "0 < ndigits n"
  by (subst ndigits.simps) simp

lemma ndigits_less: "n < 10 ^ ndigits n"
proof (induction n rule: ndigits.induct)
  case (1 n)
  show ?case
  proof (cases "n < 10")
    case True
    then show ?thesis by (subst ndigits.simps) simp
  next
    case False
    with 1 have "n div 10 < 10 ^ ndigits (n div 10)" by simp
    then have "n < 10 * 10 ^ ndigits (n div 10)" by arith
    with False show ?thesis by (subst ndigits.simps) simp
  qed
qed

lemma ndigits_ge: "0 < n \<Longrightarrow> 10 ^ (ndigits n - 1) \<le> n"
proof (induction n rule: ndigits.induct)
  case (1 n)
  show ?case
  proof (cases "n < 10")
    case True
    with 1(2) show ?thesis by (subst ndigits.simps) simp
  next
    case False
    with 1 have "10 ^ (ndigits (n div 10) - 1) \<le> n div 10" by simp
    then have "10 * 10 ^ (ndigits (n div 10) - 1) \<le> n" by arith
    moreover have "10 * 10 ^ (ndigits (n div 10) - 1) = (10::nat) ^ ndigits (n div 10)"
      using ndigits_pos [of "n div 10"] by (cases "ndigits (n div 10)") simp_all
    ultimately show ?thesis using False by (subst ndigits.simps) simp
  qed
qed

lemma ndigits_unique:
  assumes "10 ^ m \<le> n" and "n < 10 ^ Suc m"
  shows "ndigits n = Suc m"
proof -
  from assms(1) have pos: "0 < n"
    by (metis less_le_trans zero_less_numeral zero_less_power)
  have "(10::nat) ^ m < 10 ^ ndigits n"
    using assms(1) ndigits_less [of n] by (rule le_less_trans)
  then have a: "m < ndigits n" by simp
  have b: "(10::nat) ^ (ndigits n - 1) < 10 ^ Suc m"
    using ndigits_ge [OF pos] assms(2) by (rule le_less_trans)
  have "ndigits n - 1 < Suc m"
    by (rule power_less_imp_less_exp [OF _ b]) simp
  with a show ?thesis by simp
qed

lemma ndigits_mult_power:
  assumes "0 < n"
  shows "ndigits (n * 10 ^ k) = ndigits n + k"
proof -
  obtain m where m: "ndigits n = Suc m"
    using ndigits_pos [of n] by (cases "ndigits n") simp_all
  have "10 ^ m \<le> n" using ndigits_ge [OF assms] m by simp
  then have "10 ^ m * 10 ^ k \<le> n * 10 ^ k" by simp
  then have lo: "10 ^ (m + k) \<le> n * 10 ^ k" by (simp add: power_add)
  have "n < 10 ^ Suc m" using ndigits_less [of n] m by simp
  then have "n * 10 ^ k < 10 ^ Suc m * 10 ^ k" by simp
  then have hi: "n * 10 ^ k < 10 ^ Suc (m + k)" by (simp add: power_add)
  from ndigits_unique [OF lo hi] m show ?thesis by simp
qed

lemma round_half_even_exact: "round_half_even (c * 10 ^ k) k = c"
proof -
  have "\<bar>c * 10 ^ k\<bar> = \<bar>c\<bar> * 10 ^ k" by (simp add: abs_mult)
  then show ?thesis
    by (simp add: round_half_even_def Let_def sgn_mult mult_sgn_abs)
qed

lemma ndigits_28: "ndigits n = 28 \<longleftrightarrow> 10 ^ 27 \<le> n \<and> n < 10 ^ 28"
proof
  assume h: "ndigits n = 28"
  have pos: "0 < n"
  proof (rule ccontr)
    assume "\<not> 0 < n"
    then have "ndigits n = 1" by (subst ndigits.simps) simp
    with h show False by simp
  qed
  from ndigits_ge [OF pos] ndigits_less [of n] h show "10 ^ 27 \<le> n \<and> n < 10 ^ 28" by simp
next
  assume "10 ^ 27 \<le> n \<and> n < 10 ^ 28"
  then have "10 ^ 27 \<le> n" and "n < 10 ^ Suc 27" by simp_all
  from ndigits_unique [OF this] show "ndigits n = 28" by simp
qed

lemma round_half_even_abs:
  assumes "c \<noteq> 0"
  shows "\<bar>round_half_even c k\<bar> = \<bar>c\<bar> div 10 ^ k \<or> \<bar>round_half_even c k\<bar> = \<bar>c\<bar> div 10 ^ k + 1"
proof -
  have "0 \<le> \<bar>c\<bar> div 10 ^ k" by (simp add: pos_imp_zdiv_nonneg_iff)
  with assms show ?thesis
    by (simp add: round_half_even_def Let_def abs_mult abs_sgn_eq)
qed

lemma ctx_fix_digits:
  "ndigits (nat \<bar>coeff (ctx_fix d)\<bar>) \<le> prec \<and>
   (ctx_fix d = d \<or> ndigits (nat \<bar>coeff (ctx_fix d)\<bar>) = prec)"
proof (cases "ndigits (nat \<bar>coeff d\<bar>) \<le> prec")
  case True
  then show ?thesis by (simp add: ctx_fix_def Let_def)
next
  case False
  define a where "a = nat \<bar>coeff d\<bar>"
  define k where "k = ndigits a - prec"
  define c where "c = round_half_even (coeff d) k"
  define x where "x = nat \<bar>c\<bar>"
  from False have n: "ndigits a = 28 + k"
    by (simp add: k_def prec_def a_def)
  have apos: "0 < a"
  proof (rule ccontr)
    assume "\<not> 0 < a"
    then have "ndigits a = 1" by (subst ndigits.simps) simp
    with n show False by simp
  qed
  then have cz: "coeff d \<noteq> 0" by (auto simp: a_def)
  have "10 ^ (27 + k) \<le> a" using ndigits_ge [OF apos] n by simp
  then have "10 ^ 27 * 10 ^ k \<le> a" by (simp add: power_add)
  then have qlo: "10 ^ 27 \<le> a div 10 ^ k"
    by (simp add: less_eq_div_iff_mult_less_eq)
  have "a < 10 ^ (28 + k)" using ndigits_less [of a] n by simp
  then have "a < 10 ^ 28 * 10 ^ k" by (simp add: power_add)
  then have qhi: "a div 10 ^ k < 10 ^ 28"
    by (simp add: div_less_iff_less_mult)
  have "\<bar>coeff d\<bar> div 10 ^ k = int (a div 10 ^ k)"
    by (simp add: a_def zdiv_int)
  with round_half_even_abs [OF cz, of k]
  have "\<bar>c\<bar> = int (a div 10 ^ k) \<or> \<bar>c\<bar> = int (a div 10 ^ k) + 1"
    by (simp add: c_def)
  then have xq: "x = a div 10 ^ k \<or> x = a div 10 ^ k + 1"
    by (auto simp: x_def)
  with qlo qhi have xlo: "10 ^ 27 \<le> x" and xhi: "x \<le> 10 ^ 28" by auto
  have fixed: "ctx_fix d = (if ndigits x > prec then Dec (c div 10) (expo d + int k + 1)
                          else Dec c (expo d + int k))"
    using False by (simp add: ctx_fix_def Let_def a_def k_def c_def x_def)
  show ?thesis
  proof (cases "ndigits x > prec")
    case True
    have "\<not> x < 10 ^ 28"
    proof
      assume "x < 10 ^ 28"
      with xlo have "ndigits x = 28" by (simp add: ndigits_28)
      with True show False by (simp add: prec_def)
    qed
    with xhi have "x = 10 ^ 28" by simp
    then have "\<bar>c\<bar> = 10 ^ 28" by (simp add: x_def)
    then have "c = 10 ^ 28 \<or> c = - (10 ^ 28)" by arith
    then have "nat \<bar>c div 10\<bar> = 10 ^ 27" by auto
    then have "ndigits (nat \<bar>c div 10\<bar>) = 28" by (simp add: ndigits_28)
    with True fixed show ?thesis by (simp add: prec_def)
  next
    case False
    have "x \<noteq> 10 ^ 28"
    proof
      assume "x = 10 ^ 28"
      then have "10 ^ 28 \<le> x" and "x < 10 ^ Suc 28" by simp_all
      from ndigits_unique [OF this] False show False by (simp add: prec_def)
    qed
    with xhi have "x < 10 ^ 28" by simp
    with xlo have "ndigits x = 28" by (simp add: ndigits_28)
    with False fixed show ?thesis by (simp add: prec_def x_def)
  qed
qed

lemma round_half_even_nearest:
  "2 * \<bar>round_half_even c k * 10 ^ k - c\<bar> \<le> 10 ^ k"
proof -
  define p :: int where "p = 10 ^ k"
  have p: "0 < p" by (simp add: p_def)
  define q where "q = \<bar>c\<bar> div p"
  define r where "r = \<bar>c\<bar> mod p"
  have r: "0 \<le> r" "r < p" using p by (simp_all add: r_def)
  have c: "\<bar>c\<bar> = q * p + r" by (simp add: q_def r_def)
  show ?thesis
  proof (cases "0 \<le> c")
    case True
    then have "c = q * p + r" using c by simp
    with True r p show ?thesis
      unfolding round_half_even_def Let_def p_def[symmetric] q_def[symmetric] r_def[symmetric]
      by (cases "c = 0") (auto simp: sgn_if algebra_simps abs_if)
  next
    case False
    then have "c = - (q * p + r)" using c by simp
    with False r p show ?thesis
      unfolding round_half_even_def Let_def p_def[symmetric] q_def[symmetric] r_def[symmetric]
      by (auto simp: sgn_if algebra_simps abs_if)
  qed
qed

lemma round_half_even_tie:
  assumes a: "2 * \<bar>round_half_even c k * 10 ^ k - c\<bar> = 10 ^ k"
  shows "even (round_half_even c k)"
proof -
  define p :: int where "p = 10 ^ k"
  have p: "0 < p" by (simp add: p_def)
  define q where "q = \<bar>c\<bar> div p"
  define r where "r = \<bar>c\<bar> mod p"
  have r: "0 \<le> r" "r < p" using p by (simp_all add: r_def)
  have c: "\<bar>c\<bar> = q * p + r" by (simp add: q_def r_def)
  show ?thesis
  proof (cases "0 \<le> c")
    case True
    then have "c = q * p + r" using c by simp
    with True r p a show ?thesis
      unfolding round_half_even_def Let_def p_def[symmetric] q_def[symmetric] r_def[symmetric]
      by (cases "c = 0") (auto simp: sgn_if algebra_simps abs_if split: if_splits)
  next
    case False
    then have "c = - (q * p + r)" using c by simp
    with False r p a show ?thesis
      unfolding round_half_even_def Let_def p_def[symmetric] q_def[symmetric] r_def[symmetric]
      by (auto simp: sgn_if algebra_simps abs_if split: if_splits)
  qed
qed

lemma rescale_cents: "nearest_cent_half_even d (rescale d (- 2))"
  using round_half_even_nearest [of "coeff d" "nat (- 2 - expo d)"]
    round_half_even_tie [of "coeff d" "nat (- 2 - expo d)"]
  by (simp add: nearest_cent_half_even_def rescale_def Let_def)

lemma quantize_cents:
  assumes "quantize d (Dec 1 (- 2)) = Inr r"
  shows "nearest_cent_half_even d r"
proof (cases "coeff d = 0")
  case True
  with assms have "r = Dec 0 (- 2)" by (simp add: quantize_def)
  with True show ?thesis by (simp add: nearest_cent_half_even_def Let_def)
next
  case False
  with assms have "r = rescale d (- 2)"
    by (simp add: quantize_def Let_def split: if_splits)
  then show ?thesis by (simp add: rescale_cents)
qed

lemma round_half_even_le:
  assumes "\<bar>c\<bar> \<le> M * 10 ^ j"
  shows "\<bar>round_half_even c j\<bar> \<le> M"
proof -
  define p :: int where "p = 10 ^ j"
  have p: "0 < p" by (simp add: p_def)
  define q where "q = \<bar>c\<bar> div p"
  define r where "r = \<bar>c\<bar> mod p"
  have r: "0 \<le> r" "r < p" using p by (simp_all add: r_def)
  have c: "\<bar>c\<bar> = q * p + r" by (simp add: q_def r_def)
  have q0: "0 \<le> q" using p by (simp add: q_def pos_imp_zdiv_nonneg_iff)
  from assms have cM: "q * p + r \<le> M * p" by (simp add: c p_def)
  have qM: "q \<le> M"
  proof (rule ccontr)
    assume "\<not> q \<le> M"
    then have "M + 1 \<le> q" by simp
    then have "(M + 1) * p \<le> q * p" using p by (simp add: mult_right_mono)
    with cM r show False by (simp add: algebra_simps)
  qed
  have up: "q + 1 \<le> M" if "r \<noteq> 0"
  proof (rule ccontr)
    assume "\<not> q + 1 \<le> M"
    with qM have "q = M" by simp
    with cM that r show False by simp
  qed
  have "\<bar>round_half_even c j\<bar> = (if c = 0 then 0 else
          (if p < 2 * r \<or> (2 * r = p \<and> odd q) then q + 1 else q))"
    using q0 by (simp add: round_half_even_def Let_def p_def q_def r_def abs_mult abs_sgn_eq)
  also have "\<dots> \<le> M"
    using qM up q0 p by auto
  finally show ?thesis .
qed

lemma ndigits_le: "x \<le> 10 ^ k \<Longrightarrow> ndigits x \<le> Suc k"
proof (cases "x = 0")
  case True
  then show ?thesis by (subst ndigits.simps) simp
next
  case False
  assume a: "x \<le> 10 ^ k"
  from False have pos: "0 < x" by simp
  have b: "(10::nat) ^ (ndigits x - 1) \<le> 10 ^ k"
    using ndigits_ge [OF pos] a by (rule le_trans)
  have "ndigits x - 1 \<le> k"
    by (rule power_le_imp_le_exp [OF _ b]) simp
  then show ?thesis by simp
qed

lemma ndigits_less_power: "x < 10 ^ k \<Longrightarrow> ndigits x \<le> max 1 k"
proof (cases "x = 0")
  case True
  then show ?thesis by (subst ndigits.simps) simp
next
  case False
  assume a: "x < 10 ^ k"
  from False have pos: "0 < x" by simp
  have b: "(10::nat) ^ (ndigits x - 1) < 10 ^ k"
    using ndigits_ge [OF pos] a by (rule le_less_trans)
  have "ndigits x - 1 < k"
    by (rule power_less_imp_less_exp [OF _ b]) simp
  then show ?thesis by simp
qed

lemma ndigits_quotient:
  assumes "x < 10 ^ k * y"
  shows "ndigits x \<le> ndigits y + k"
proof -
  have "10 ^ k * y < 10 ^ k * 10 ^ ndigits y"
    using ndigits_less [of y] by simp
  with assms have "x < 10 ^ k * 10 ^ ndigits y" by (rule less_trans)
  then have "x < 10 ^ (k + ndigits y)" by (simp add: power_add)
  from ndigits_less_power [OF this] ndigits_pos [of y] show ?thesis by simp
qed

lemma ctx_fix_bounded:
  assumes "expo z \<le> k" and "\<bar>coeff z\<bar> \<le> 10 ^ nat (k - expo z)"
  shows "expo (ctx_fix z) \<le> k \<and> \<bar>coeff (ctx_fix z)\<bar> \<le> 10 ^ nat (k - expo (ctx_fix z))"
proof (cases "ndigits (nat \<bar>coeff z\<bar>) \<le> prec")
  case True
  with assms show ?thesis by (simp add: ctx_fix_def Let_def)
next
  case False
  define a where "a = nat \<bar>coeff z\<bar>"
  define K where "K = nat (k - expo z)"
  define j where "j = ndigits a - prec"
  define c where "c = round_half_even (coeff z) j"
  from False have nd: "ndigits a = 28 + j" by (simp add: j_def prec_def a_def)
  have "int a \<le> 10 ^ K" using assms(2) by (simp add: a_def K_def)
  then have "int a \<le> int (10 ^ K)" by simp
  then have aK: "a \<le> 10 ^ K" by (simp only: of_nat_le_iff)
  from ndigits_le [OF aK] nd have jK: "j + 27 \<le> K" by simp
  then have Ksplit: "K = (K - j) + j" by simp
  have "\<bar>coeff z\<bar> \<le> 10 ^ (K - j) * 10 ^ j"
    using assms(2) Ksplit by (metis K_def power_add)
  from round_half_even_le [OF this] have cb: "\<bar>c\<bar> \<le> 10 ^ (K - j)" by (simp add: c_def)
  have e1: "expo z + int j \<le> k" and n1: "nat (k - (expo z + int j)) = K - j"
    using jK assms(1) by (simp_all add: K_def)
  have e2: "expo z + int j + 1 \<le> k" and n2: "nat (k - (expo z + int j + 1)) = K - j - 1"
    using jK assms(1) by (simp_all add: K_def)
  from jK obtain t where t: "K - j = Suc t" by (cases "K - j") simp_all
  then have "10 ^ (K - j) = (10::int) * 10 ^ (K - j - 1)" by simp
  with cb have "- (10 * 10 ^ (K - j - 1)) \<le> c" and "c \<le> 10 * 10 ^ (K - j - 1)" by simp_all
  then have db: "\<bar>c div 10\<bar> \<le> 10 ^ (K - j - 1)" by (simp add: abs_le_iff) linarith+
  have fixed: "ctx_fix z = (if ndigits (nat \<bar>c\<bar>) > prec then Dec (c div 10) (expo z + int j + 1)
                            else Dec c (expo z + int j))"
    using False by (simp add: ctx_fix_def Let_def a_def j_def c_def)
  show ?thesis
    unfolding fixed using cb db e1 e2 n1 n2 by simp
qed

lemma quantize_bounded:
  assumes "expo z \<le> 25" and "\<bar>coeff z\<bar> \<le> 10 ^ nat (25 - expo z)"
  shows "quantize z (Dec 1 (- 2)) =
           Inr (if coeff z = 0 then Dec 0 (- 2) else rescale z (- 2))"
proof (cases "coeff z = 0")
  case True
  then show ?thesis by (simp add: quantize_def)
next
  case False
  define a where "a = nat \<bar>coeff z\<bar>"
  define K where "K = nat (25 - expo z)"
  have "int a \<le> int (10 ^ K)" using assms(2) by (simp add: a_def K_def)
  then have aK: "a \<le> 10 ^ K" by (simp only: of_nat_le_iff)
  from ndigits_le [OF aK] have "int (ndigits a) \<le> int K + 1" by simp
  with assms(1) have adj: "adjusted z \<le> 25" by (simp add: adjusted_def a_def K_def)
  have rb: "\<bar>coeff (rescale z (- 2))\<bar> \<le> 10 ^ 27"
  proof (cases "- 2 \<le> expo z")
    case True
    have "\<bar>coeff z\<bar> * 10 ^ nat (expo z + 2) \<le> 10 ^ K * 10 ^ nat (expo z + 2)"
      using assms(2) by (simp add: K_def)
    also have "\<dots> = 10 ^ (K + nat (expo z + 2))" by (simp add: power_add)
    also have "K + nat (expo z + 2) = 27" using True assms(1) by (simp add: K_def)
    finally show ?thesis using True by (simp add: rescale_def abs_mult)
  next
    case False
    then have "K = 27 + nat (- 2 - expo z)" by (simp add: K_def)
    then have "\<bar>coeff z\<bar> \<le> 10 ^ 27 * 10 ^ nat (- 2 - expo z)"
      using assms(2) by (metis K_def power_add)
    from round_half_even_le [OF this] False show ?thesis by (simp add: rescale_def)
  qed
  then have "int (nat \<bar>coeff (rescale z (- 2))\<bar>) \<le> int (10 ^ 27)" by simp
  then have "nat \<bar>coeff (rescale z (- 2))\<bar> \<le> 10 ^ 27" by (simp only: of_nat_le_iff)
  from ndigits_le [OF this] have "ndigits (nat \<bar>coeff (rescale z (- 2))\<bar>) \<le> prec"
    by (simp add: prec_def)
  with False adj show ?thesis by (simp add: quantize_def Let_def prec_def)
qed

lemma strip_zeros_props:
  "strip_zeros c e ideal = (c', e') \<Longrightarrow> e \<le> ideal \<Longrightarrow>
   e \<le> e' \<and> e' \<le> ideal \<and> c = c' * 10 ^ nat (e' - e) \<and> (e' = ideal \<or> c' mod 10 \<noteq> 0)"
proof (induction c e ideal rule: strip_zeros.induct)
  case (1 c e ideal)
  show ?case
  proof (cases "e < ideal \<and> c mod 10 = 0")
    case True
    with 1(2) have s: "strip_zeros (c div 10) (e + 1) ideal = (c', e')"
      by (subst (asm) strip_zeros.simps) simp
    from True have "e + 1 \<le> ideal" by simp
    from 1(1) [OF True s this]
    have ih: "e + 1 \<le> e'" "e' \<le> ideal" "c div 10 = c' * 10 ^ nat (e' - (e + 1))"
      "e' = ideal \<or> c' mod 10 \<noteq> 0" by simp_all
    from True have "c = c div 10 * 10" by (simp add: mod_eq_0_iff_dvd)
    also have "\<dots> = c' * 10 ^ Suc (nat (e' - (e + 1)))" using ih(3) by simp
    also have "Suc (nat (e' - (e + 1))) = nat (e' - e)" using ih(1) by simp
    finally show ?thesis using ih by simp
  next
    case False
    with 1(2) have "c' = c" "e' = e"
      by (subst (asm) strip_zeros.simps; simp)+
    with False 1(3) show ?thesis by auto
  qed
qed

lemma int_div_less:
  fixes a :: int
  assumes "0 < b" and "a < M * b"
  shows "a div b < M"
proof (rule ccontr)
  assume "\<not> a div b < M"
  then have "M \<le> a div b" by simp
  then have "M * b \<le> a div b * b" using assms(1) by (simp add: mult_right_mono)
  moreover have "a div b * b + a mod b = a" by simp
  moreover have "0 \<le> a mod b" using assms(1) by simp
  ultimately show False using assms(2) by linarith
qed

lemma exact_quotient_sign:
  fixes n d :: int
  assumes "d \<noteq> 0" and "m * d = 100 * n"
  shows "sgn n * sgn d * \<bar>m\<bar> = m"
proof -
  have "sgn m * sgn d = sgn n"
    using arg_cong [OF assms(2), of sgn] by (simp add: sgn_mult)
  then have "sgn n * sgn d = (sgn m * sgn d) * sgn d" by simp
  also have "\<dots> = sgn m * (sgn d * sgn d)" by (simp only: mult.assoc)
  also have "sgn d * sgn d = 1" using assms(1) by (simp add: sgn_if)
  finally have "sgn n * sgn d = sgn m" by simp
  then show ?thesis by (simp add: mult_sgn_abs)
qed

lemma ddiv_int:
  assumes n0: "n \<noteq> 0" and d0: "d \<noteq> 0" and small: "\<bar>n\<bar> < 10 ^ 25 * \<bar>d\<bar>"
  shows "\<exists>z. ddiv (Dec n 0) (Dec d 0) = Inr z \<and> expo z \<le> 25 \<and>
             \<bar>coeff z\<bar> \<le> 10 ^ nat (25 - expo z) \<and>
             ((100 * n) mod d = 0 \<longrightarrow>
                coeff z \<noteq> 0 \<and> rescale z (- 2) = Dec (100 * n div d) (- 2))"
proof -
  define N where "N = \<bar>n\<bar>"
  define D where "D = \<bar>d\<bar>"
  have Npos: "0 < N" and Dpos: "0 < D" using n0 d0 by (simp_all add: N_def D_def)
  have ND: "N < 10 ^ 25 * D" using small by (simp add: N_def D_def)
  have "int (nat N) < int (10 ^ 25 * nat D)" using ND Npos Dpos by simp
  then have "nat N < 10 ^ 25 * nat D" by (simp only: of_nat_less_iff)
  from ndigits_quotient [OF this]
  have ndN: "ndigits (nat N) \<le> ndigits (nat D) + 25" .
  define sh where "sh = ndigits (nat D) + 29 - ndigits (nat N)"
  have sh4: "4 \<le> sh" using ndN by (simp add: sh_def)
  have shift: "int (ndigits (nat \<bar>d\<bar>)) - int (ndigits (nat \<bar>n\<bar>)) + int prec + 1 = int sh"
    using ndN by (simp add: sh_def prec_def N_def D_def)
  define a where "a = N * 10 ^ sh"
  define q where "q = a div D"
  define r where "r = a mod D"
  define w where "w = (if r \<noteq> 0 then (if q mod 5 = 0 then q + 1 else q, - int sh)
                       else strip_zeros q (- int sh) 0)"
  define sg where "sg = sgn n * sgn d"
  have sg1: "\<bar>sg\<bar> = 1" using n0 d0 by (simp add: sg_def abs_mult sgn_if)
  have eq: "ddiv (Dec n 0) (Dec d 0) = Inr (ctx_fix (Dec (sg * fst w) (snd w)))"
    using n0 d0
    by (simp add: ddiv_def Let_def shift w_def sg_def a_def q_def r_def N_def D_def
        case_prod_beta)
  have a0: "0 \<le> a" using Npos by (simp add: a_def)
  have q0: "0 \<le> q" using a0 Dpos by (simp add: q_def pos_imp_zdiv_nonneg_iff)
  have "a < 10 ^ 25 * D * 10 ^ sh" using ND by (simp add: a_def)
  then have "a < 10 ^ (25 + sh) * D" by (simp add: power_add algebra_simps)
  from int_div_less [OF Dpos this] have qlt: "q < 10 ^ (25 + sh)" by (simp add: q_def)
  have wb: "snd w \<le> 0 \<and> 0 \<le> fst w \<and> fst w \<le> 10 ^ nat (25 - snd w)"
  proof (cases "r \<noteq> 0")
    case True
    have "nat (25 + int sh) = 25 + sh" by simp
    with True q0 qlt show ?thesis by (simp add: w_def)
  next
    case False
    obtain c' e' where st: "strip_zeros q (- int sh) 0 = (c', e')" by (cases "strip_zeros q (- int sh) 0")
    from strip_zeros_props [OF st]
    have p: "- int sh \<le> e'" "e' \<le> 0" "q = c' * 10 ^ nat (e' + int sh)" by simp_all
    define u where "u = nat (e' + int sh)"
    define v where "v = nat (25 - e')"
    have uv: "25 + sh = v + u" using p(1,2) by (simp add: u_def v_def)
    have qc: "q = c' * 10 ^ u" using p(3) by (simp add: u_def)
    have c0: "0 \<le> c'"
    proof (rule ccontr)
      assume "\<not> 0 \<le> c'"
      then have "c' * 10 ^ u < 0" by (simp add: mult_less_0_iff)
      with q0 qc show False by simp
    qed
    have "c' * 10 ^ u < 10 ^ v * 10 ^ u" using qlt qc uv by (simp add: power_add)
    then have "c' < 10 ^ v" by simp
    with c0 p(2) False st show ?thesis by (simp add: w_def v_def)
  qed
  have zb: "expo (ctx_fix (Dec (sg * fst w) (snd w))) \<le> 25 \<and>
        \<bar>coeff (ctx_fix (Dec (sg * fst w) (snd w)))\<bar>
          \<le> 10 ^ nat (25 - expo (ctx_fix (Dec (sg * fst w) (snd w))))"
    using wb sg1 by (intro ctx_fix_bounded) (simp_all add: abs_mult)
  have ex: "coeff (ctx_fix (Dec (sg * fst w) (snd w))) \<noteq> 0 \<and>
        rescale (ctx_fix (Dec (sg * fst w) (snd w))) (- 2) = Dec (100 * n div d) (- 2)"
    if exact: "(100 * n) mod d = 0"
  proof -
    define m where "m = 100 * n div d"
    define M where "M = \<bar>m\<bar>"
    have md: "m * d = 100 * n" using exact by (simp add: m_def mod_eq_0_iff_dvd)
    then have "\<bar>m * d\<bar> = \<bar>100 * n\<bar>" by simp
    then have MD: "M * D = 100 * N" by (simp add: M_def D_def N_def abs_mult)
    have Mpos: "0 < M"
    proof (rule ccontr)
      assume "\<not> 0 < M"
      then have "M = 0" by (simp add: M_def)
      with MD Npos show False by simp
    qed
    have "M * D < 10 ^ 27 * D" using MD ND by simp
    then have Mlt: "M < 10 ^ 27" using Dpos by simp
    obtain t where t: "sh = Suc (Suc t)" using sh4 by (cases sh; cases "sh - 1") simp_all
    have "a = M * 10 ^ t * D" using MD by (simp add: a_def t algebra_simps)
    then have r0: "r = 0" and qM: "q = M * 10 ^ t" using Dpos by (simp_all add: r_def q_def)
    obtain c' e' where st: "strip_zeros q (- int sh) 0 = (c', e')" by (cases "strip_zeros q (- int sh) 0")
    from strip_zeros_props [OF st]
    have p: "- int sh \<le> e'" "e' \<le> 0" "q = c' * 10 ^ nat (e' + int sh)"
      "e' = 0 \<or> c' mod 10 \<noteq> 0" by simp_all
    have w: "w = (c', e')" using r0 st by (simp add: w_def)
    have e2: "- 2 \<le> e'"
    proof (rule ccontr)
      assume "\<not> - 2 \<le> e'"
      then have lt: "e' < - 2" by simp
      define u where "u = nat (e' + int sh)"
      have "u < t" using lt p(1) by (simp add: u_def t)
      then obtain j where j: "t = u + Suc j"
        using less_imp_Suc_add [of u t] by auto
      have "c' * 10 ^ u = M * 10 ^ Suc j * 10 ^ u"
        using p(3) qM by (simp add: u_def j power_add algebra_simps)
      then have "c' = M * 10 ^ Suc j" by simp
      then have "c' mod 10 = 0" by simp
      with p(4) lt show False by simp
    qed
    define k where "k = nat (e' + 2)"
    have ksh: "nat (e' + int sh) = k + t" using e2 t by (simp add: k_def)
    have "c' * 10 ^ k * 10 ^ t = M * 10 ^ t"
      using p(3) qM by (simp add: ksh power_add algebra_simps)
    then have cM: "c' * 10 ^ k = M" by simp
    have cpos: "0 < c'"
    proof (rule ccontr)
      assume "\<not> 0 < c'"
      then have "c' * 10 ^ k \<le> 0" by (simp add: mult_le_0_iff)
      with cM Mpos show False by simp
    qed
    have "c' * 1 \<le> c' * 10 ^ k" using cpos by (intro mult_left_mono) simp_all
    with cM Mlt have clt: "c' < 10 ^ 27" by simp
    have "int (nat \<bar>sg * c'\<bar>) \<le> int (10 ^ 27)"
      using clt cpos sg1 by (simp add: abs_mult)
    then have "nat \<bar>sg * c'\<bar> \<le> 10 ^ 27" by (simp only: of_nat_le_iff)
    from ndigits_le [OF this] have "ndigits (nat \<bar>sg * c'\<bar>) \<le> prec" by (simp add: prec_def)
    then have fx: "ctx_fix (Dec (sg * fst w) (snd w)) = Dec (sg * c') e'"
      by (simp add: ctx_fix_def Let_def w)
    have nz: "sg * c' \<noteq> 0" using cpos sg1 by auto
    have "sg * c' * 10 ^ k = sg * M" using cM by (simp add: algebra_simps)
    also have "\<dots> = m" unfolding sg_def M_def by (rule exact_quotient_sign [OF d0 md])
    finally have "rescale (Dec (sg * c') e') (- 2) = Dec m (- 2)"
      using e2 by (simp add: rescale_def k_def)
    with nz show ?thesis by (simp add: fx m_def)
  qed
  from eq zb ex show ?thesis by blast
qed

subsection \<open>The operations of \<open>apply_operation\<close>\<close>


lemma apply_operation_length:
  "apply_operation vs opn = Inr rs \<Longrightarrow> length rs = length vs"
  by (induction vs arbitrary: rs) (auto split: sum.splits)

lemma apply_operation_nth:
  "apply_operation vs opn = Inr rs \<Longrightarrow> i < length vs \<Longrightarrow>
   quantize (new_value (fst opn) (snd opn) (vs ! i)) (Dec 1 (- 2)) = Inr (rs ! i)"
proof (induction vs arbitrary: rs i)
  case Nil
  then show ?case by simp
next
  case (Cons v vs)
  then show ?case by (cases i) (auto split: sum.splits)
qed

lemma new_value_percent: "new_value ''%'' operand v = new_value ''*'' operand v"
  by (simp add: new_value_def)

lemma new_value_percent_product:
  assumes "ndigits (nat \<bar>coeff v * coeff operand\<bar>) \<le> prec"
  shows "new_value ''%'' operand v = Dec (coeff v * coeff operand) (expo v + expo operand)"
  using assms by (simp add: new_value_def dmul_def ctx_fix_def Let_def)

text \<open>
  C10. For every list of Decimal values and every Decimal operand, the operator \<open>%\<close>
  gives exactly the result list of the operator \<open>*\<close> with the same operand, and it
  multiplies: when \<open>apply_operation\<close> returns, it returns one value for each input value,
  and wherever the product of the value and the operand (the product of the coefficients,
  the sum of the exponents) fits the 28 digits of the context, the result is that product
  rounded to the nearest cent, a tie going to the even cent.
\<close>

theorem apply_operation_percent_is_times:
  "apply_operation vs (''%'', operand) = apply_operation vs (''*'', operand) \<and>
   (\<forall>rs. apply_operation vs (''%'', operand) = Inr rs \<longrightarrow>
      length rs = length vs \<and>
      (\<forall>i<length vs. ndigits (nat \<bar>coeff (vs ! i) * coeff operand\<bar>) \<le> prec \<longrightarrow>
         nearest_cent_half_even
           (Dec (coeff (vs ! i) * coeff operand) (expo (vs ! i) + expo operand)) (rs ! i)))"
proof -
  have same: "apply_operation vs (''%'', operand) = apply_operation vs (''*'', operand)"
    by (induction vs) (simp_all add: new_value_percent cong: sum.case_cong)
  have prod: "nearest_cent_half_even
           (Dec (coeff (vs ! i) * coeff operand) (expo (vs ! i) + expo operand)) (rs ! i)"
    if r: "apply_operation vs (''%'', operand) = Inr rs" and i: "i < length vs"
      and fits: "ndigits (nat \<bar>coeff (vs ! i) * coeff operand\<bar>) \<le> prec" for rs i
  proof -
    from apply_operation_nth [OF r i]
    have "quantize (new_value ''%'' operand (vs ! i)) (Dec 1 (- 2)) = Inr (rs ! i)" by simp
    then have "quantize (Dec (coeff (vs ! i) * coeff operand) (expo (vs ! i) + expo operand))
                 (Dec 1 (- 2)) = Inr (rs ! i)"
      by (simp only: new_value_percent_product [OF fits])
    then show ?thesis by (rule quantize_cents)
  qed
  from same prod apply_operation_length show ?thesis by blast
qed

theorem apply_operation_percent_is_times_witness:
  "apply_operation [Dec 10000 (- 2), Dec 125 (- 3)] (''%'', Dec 9 (- 1)) =
     Inr [Dec 9000 (- 2), Dec 11 (- 2)] \<and>
   apply_operation [Dec 10000 (- 2), Dec 125 (- 3)] (''*'', Dec 9 (- 1)) =
     Inr [Dec 9000 (- 2), Dec 11 (- 2)] \<and>
   nearest_cent_half_even (Dec (10000 * 9) (- 2 + - 1)) (Dec 9000 (- 2)) \<and>
   nearest_cent_half_even (Dec (125 * 9) (- 3 + - 1)) (Dec 11 (- 2))"
proof -
  let ?vs = "[Dec 10000 (- 2), Dec 125 (- 3)]"
  let ?rs = "[Dec 9000 (- 2), Dec 11 (- 2)]"
  have h: "apply_operation ?vs (''%'', Dec 9 (- 1)) = Inr ?rs"
    by (simp add: new_value_def dmul_def ctx_fix_def quantize_def rescale_def adjusted_def
        round_half_even_def prec_def ndigits.simps Let_def)
  have f0: "ndigits (nat \<bar>coeff (?vs ! 0) * coeff (Dec 9 (- 1))\<bar>) \<le> prec"
    by (simp add: prec_def ndigits.simps)
  have f1: "ndigits (nat \<bar>coeff (?vs ! 1) * coeff (Dec 9 (- 1))\<bar>) \<le> prec"
    by (simp add: prec_def ndigits.simps)
  note t = apply_operation_percent_is_times [of ?vs "Dec 9 (- 1)"]
  from t h have s: "apply_operation ?vs (''*'', Dec 9 (- 1)) = Inr ?rs" by simp
  from t h have a: "\<forall>i<length ?vs. ndigits (nat \<bar>coeff (?vs ! i) * coeff (Dec 9 (- 1))\<bar>) \<le> prec \<longrightarrow>
         nearest_cent_half_even
           (Dec (coeff (?vs ! i) * coeff (Dec 9 (- 1))) (expo (?vs ! i) + expo (Dec 9 (- 1)))) (?rs ! i)"
    by blast
  from a [rule_format, of 0] f0
  have c0: "nearest_cent_half_even (Dec (10000 * 9) (- 2 + - 1)) (Dec 9000 (- 2))" by simp
  from a [rule_format, of 1] f1
  have c1: "nearest_cent_half_even (Dec (125 * 9) (- 3 + - 1)) (Dec 11 (- 2))" by simp
  from h s c0 c1 show ?thesis by blast
qed

text \<open>
  C1 (counterexample). The value 0.125 times 1 is exactly half way between 0.12 and 0.13.
  Rounding ties away from zero gives 0.13; \<open>apply_operation\<close> returns 0.12.
\<close>

theorem apply_operation_tie_counterexample:
  "new_value ''*'' (Dec 1 0) (Dec 125 (- 3)) = Dec 125 (- 3) \<and>
   quantize_ties_away (Dec 125 (- 3)) = Dec 13 (- 2) \<and>
   apply_operation [Dec 125 (- 3)] (''*'', Dec 1 0) = Inr [Dec 12 (- 2)]"
  by (simp add: new_value_def dmul_def ctx_fix_def quantize_def rescale_def adjusted_def
      round_half_even_def prec_def ndigits.simps Let_def quantize_ties_away_def
      round_ties_away_def)

text \<open>
  C1 (amended). Whenever \<open>apply_operation\<close> returns, it returns one value per input value,
  and each is the operation's result rounded to the nearest cent with a tie going to the
  even cent (ROUND_HALF_EVEN, the default of Decimal's \<open>quantize\<close>).
\<close>

theorem apply_operation_rounds_half_even:
  assumes "apply_operation vs (operator, operand) = Inr rs"
  shows "length rs = length vs \<and>
         (\<forall>i<length vs. nearest_cent_half_even (new_value operator operand (vs ! i)) (rs ! i))"
  using apply_operation_length [OF assms] apply_operation_nth [OF assms] quantize_cents
  by simp

theorem apply_operation_rounds_half_even_witness:
  "apply_operation [Dec 125 (- 3), Dec 10000 (- 2)] (''/'', Dec 3 0)
     = Inr [Dec 4 (- 2), Dec 3333 (- 2)] \<and>
   length [Dec 4 (- 2), Dec 3333 (- 2)] = length [Dec 125 (- 3), Dec 10000 (- 2)] \<and>
   nearest_cent_half_even (new_value ''/'' (Dec 3 0) (Dec 125 (- 3))) (Dec 4 (- 2)) \<and>
   nearest_cent_half_even (new_value ''/'' (Dec 3 0) (Dec 10000 (- 2))) (Dec 3333 (- 2))"
proof -
  have h: "apply_operation [Dec 125 (- 3), Dec 10000 (- 2)] (''/'', Dec 3 0)
             = Inr [Dec 4 (- 2), Dec 3333 (- 2)]"
    by (simp add: new_value_def ddiv_def ctx_fix_def quantize_def rescale_def adjusted_def
        round_half_even_def prec_def ndigits.simps strip_zeros.simps Let_def)
  have a: "\<forall>i<length [Dec 125 (- 3), Dec 10000 (- 2)].
      nearest_cent_half_even (new_value ''/'' (Dec 3 0) ([Dec 125 (- 3), Dec 10000 (- 2)] ! i))
        ([Dec 4 (- 2), Dec 3333 (- 2)] ! i)"
    using apply_operation_rounds_half_even [OF h] by blast
  from a [rule_format, of 0] a [rule_format, of 1] h show ?thesis by simp
qed

section \<open>Properties of \<open>parse_gnucash_value\<close>\<close>

lemmas decimal_eval =
  ddiv_def dmul_def dadd_def dsub_def dneg_def ctx_fix_def quantize_def rescale_def adjusted_def
  round_half_even_def prec_def ndigits.simps strip_zeros.simps Let_def

lemmas string_eval =
  Decimal_of_str_def parse_exp_def is_special_def strip_def is_space_def is_digit_def
  nat_of_digits_def to_lower_def

lemma strip_no_space_ends:
  assumes "s \<noteq> []" "\<not> is_space (hd s)" "\<not> is_space (last s)"
  shows "strip s = s"
proof -
  have lead: "dropWhile is_space s = s"
    using assms(1,2) by (cases s) auto
  have trail: "dropWhile is_space (rev s) = rev s"
    using assms(1,3) by (simp add: dropWhile_eq_self_iff hd_rev)
  show ?thesis
    by (simp add: strip_def lead trail)
qed

lemma digits_of_nonempty: "digits_of n \<noteq> []"
  by (subst digits_of.simps) simp

lemma digits_of_digits: "c \<in> set (digits_of n) \<Longrightarrow> is_digit c"
proof (induction n rule: digits_of.induct)
  case (1 n)
  show ?case
  proof (cases "n < 10")
    case True
    with 1(2) have "c = char_of (48 + n)" by (subst (asm) digits_of.simps) simp
    with True show ?thesis by (simp add: is_digit_def)
  next
    case False
    with 1(2) have "c \<in> set (digits_of (n div 10)) \<or> c = char_of (48 + n mod 10)"
      by (subst (asm) digits_of.simps) auto
    then show ?thesis
    proof
      assume "c \<in> set (digits_of (n div 10))"
      with 1(1) False show ?thesis by simp
    next
      assume c: "c = char_of (48 + n mod 10)"
      have "n mod 10 < 10" by simp
      then have "(48 + n mod 10) mod 256 = 48 + n mod 10" by simp
      with c show ?thesis by (simp add: is_digit_def)
    qed
  qed
qed

lemma nat_of_digits_digits_of: "nat_of_digits (digits_of n) = n"
proof (induction n rule: digits_of.induct)
  case (1 n)
  show ?case
  proof (cases "n < 10")
    case True
    then show ?thesis by (subst digits_of.simps) (simp add: nat_of_digits_def)
  next
    case False
    with 1 have ih: "nat_of_digits (digits_of (n div 10)) = n div 10" by simp
    have "n mod 10 < 10" by simp
    then have m: "(48 + n mod 10) mod 256 = 48 + n mod 10" by simp
    have "nat_of_digits (digits_of n) =
            10 * nat_of_digits (digits_of (n div 10)) + (of_char (char_of (48 + n mod 10) :: char) - 48)"
      using False by (subst digits_of.simps) (simp add: nat_of_digits_def)
    also have "\<dots> = 10 * (n div 10) + n mod 10" by (simp add: ih m)
    finally show ?thesis by simp
  qed
qed

lemma is_digit_plain:
  assumes "is_digit c"
  shows "\<not> is_space c" and "c \<noteq> CHR ''_''" and "c \<noteq> CHR ''/''" and "c \<noteq> CHR ''-''"
    and "c \<noteq> CHR ''+''" and "c \<noteq> CHR ''.''" and "to_lower c = c"
    and "c \<noteq> CHR ''i''" and "c \<noteq> CHR ''n''" and "c \<noteq> CHR ''s''"
  using assms by (auto simp: is_digit_def is_space_def to_lower_def)

lemma Decimal_of_str_digits:
  assumes ne: "ds \<noteq> []" and dg: "\<forall>c \<in> set ds. is_digit c"
  shows "Decimal_of_str ds = Inr (Dec (int (nat_of_digits ds)) 0)"
    and "Decimal_of_str (CHR ''-'' # ds) = Inr (Dec (- int (nat_of_digits ds)) 0)"
proof -
  from ne dg have h: "is_digit (hd ds)" and l: "is_digit (last ds)" by simp_all
  have st: "strip ds = ds"
    using ne h l by (intro strip_no_space_ends) (simp_all add: is_digit_plain)
  have nl: "\<not> is_space (last ds)" using l by (rule is_digit_plain(1))
  have nm: "\<not> is_space CHR ''-''" by (simp add: is_space_def)
  have stm: "strip (CHR ''-'' # ds) = CHR ''-'' # ds"
    using ne nl nm by (intro strip_no_space_ends) simp_all
  have fl: "filter (\<lambda>c. c \<noteq> CHR ''_'') ds = ds"
    using dg by (simp add: filter_id_conv is_digit_plain)
  have tw: "takeWhile is_digit ds = ds" and dw: "dropWhile is_digit ds = []"
    using dg by simp_all
  obtain c cs where ds: "ds = c # cs" using ne by (cases ds) simp_all
  with h have c: "is_digit c" by simp
  have sp: "\<not> is_special ds"
    using is_digit_plain(7,8,9,10) [OF c] by (auto simp: is_special_def Let_def ds)
  have hdm: "hd ds \<noteq> CHR ''-''" "hd ds \<noteq> CHR ''+''"
    using h by (simp_all add: is_digit_plain)
  show "Decimal_of_str ds = Inr (Dec (int (nat_of_digits ds)) 0)"
    using ne hdm sp by (simp add: Decimal_of_str_def st fl tw dw parse_exp_def Let_def)
  show "Decimal_of_str (CHR ''-'' # ds) = Inr (Dec (- int (nat_of_digits ds)) 0)"
    using ne sp by (simp add: Decimal_of_str_def stm fl tw dw parse_exp_def Let_def)
qed

lemma Decimal_of_str_int_str: "Decimal_of_str (int_str n) = Inr (Dec n 0)"
  using Decimal_of_str_digits [OF digits_of_nonempty, of "nat \<bar>n\<bar>"] digits_of_digits
  by (auto simp: int_str_def nat_of_digits_digits_of)

lemma int_str_no_slash: "CHR ''/'' \<notin> set (int_str n)"
  using digits_of_digits is_digit_plain(3) by (auto simp: int_str_def)

lemma split_on_none: "sep \<notin> set s \<Longrightarrow> split_on sep s = [s]"
  by (induction s) auto

lemma split_on_append:
  "sep \<notin> set a \<Longrightarrow> split_on sep (a @ sep # b) = a # split_on sep b"
  by (induction a) auto

lemma split_on_two:
  "sep \<notin> set a \<Longrightarrow> sep \<notin> set b \<Longrightarrow> split_on sep (a @ sep # b) = [a, b]"
  by (simp add: split_on_append split_on_none)

lemma parse_gnucash_value_two:
  assumes "CHR ''/'' \<notin> set a" and "CHR ''/'' \<notin> set b"
  shows "parse_gnucash_value (a @ ''/'' @ b) =
           (case Decimal_of_str a of
              Inl e \<Rightarrow> Inl e
            | Inr numerator \<Rightarrow>
                (case Decimal_of_str b of
                   Inl e \<Rightarrow> Inl e
                 | Inr denominator \<Rightarrow>
                     (case ddiv numerator denominator of
                        Inl e \<Rightarrow> Inl e
                      | Inr v \<Rightarrow> quantize v (Dec 1 (- 2)))))"
  using split_on_two [OF assms] by (simp add: parse_gnucash_value_def nth_Cons' cong: sum.case_cong)

lemma parse_gnucash_value_ints:
  assumes a: "CHR ''/'' \<notin> set a" "Decimal_of_str a = Inr (Dec n 0)"
    and b: "CHR ''/'' \<notin> set b" "Decimal_of_str b = Inr (Dec d 0)"
  shows "d = 0 \<Longrightarrow> parse_gnucash_value (a @ ''/'' @ b) =
           Inl (if n = 0 then InvalidOperation else DivisionByZero)"
    and "d \<noteq> 0 \<Longrightarrow> \<bar>n\<bar> < 10 ^ 25 * \<bar>d\<bar> \<Longrightarrow>
         \<exists>r. parse_gnucash_value (a @ ''/'' @ b) = Inr r \<and> expo r = - 2 \<and>
             ((100 * n) mod d = 0 \<longrightarrow> coeff r = 100 * n div d)"
proof -
  note p = parse_gnucash_value_two [OF a(1) b(1), unfolded a(2) b(2)]
  show "parse_gnucash_value (a @ ''/'' @ b) =
           Inl (if n = 0 then InvalidOperation else DivisionByZero)" if "d = 0"
    unfolding p using that by (simp add: ddiv_def)
  show "\<exists>r. parse_gnucash_value (a @ ''/'' @ b) = Inr r \<and> expo r = - 2 \<and>
             ((100 * n) mod d = 0 \<longrightarrow> coeff r = 100 * n div d)"
    if d0: "d \<noteq> 0" and small: "\<bar>n\<bar> < 10 ^ 25 * \<bar>d\<bar>"
  proof (cases "n = 0")
    case True
    have "ndigits 0 = 1" by (subst ndigits.simps) simp
    with True d0 have "parse_gnucash_value (a @ ''/'' @ b) = Inr (Dec 0 (- 2))"
      unfolding p by (simp add: ddiv_def ctx_fix_def quantize_def prec_def Let_def)
    with True show ?thesis by simp
  next
    case False
    from ddiv_int [OF False d0 small] obtain z where
      z: "ddiv (Dec n 0) (Dec d 0) = Inr z" "expo z \<le> 25" "\<bar>coeff z\<bar> \<le> 10 ^ nat (25 - expo z)"
        "(100 * n) mod d = 0 \<longrightarrow> coeff z \<noteq> 0 \<and> rescale z (- 2) = Dec (100 * n div d) (- 2)"
      by blast
    have "parse_gnucash_value (a @ ''/'' @ b) =
            Inr (if coeff z = 0 then Dec 0 (- 2) else rescale z (- 2))"
      unfolding p by (simp add: z(1) quantize_bounded [OF z(2,3)])
    moreover have "expo (if coeff z = 0 then Dec 0 (- 2) else rescale z (- 2)) = - 2"
      by (simp add: rescale_def)
    moreover have "(100 * n) mod d = 0 \<longrightarrow>
        coeff (if coeff z = 0 then Dec 0 (- 2) else rescale z (- 2)) = 100 * n div d"
      using z(4) by auto
    ultimately show ?thesis by blast
  qed
qed

text \<open>
  C3 (counterexample). A zero denominator raises DivisionByZero and a part that is not a
  number raises InvalidOperation, where the claim promises Decimal zero; a string of two
  numbers that are not both integers is divided like any other, where the claim promises
  Decimal zero; and a quotient of 28 digits raises InvalidOperation in \<open>quantize\<close>.
\<close>

theorem parse_gnucash_value_raises_counterexample:
  "parse_gnucash_value ''1/0'' = Inl DivisionByZero \<and>
   parse_gnucash_value ''abc/100'' = Inl InvalidOperation \<and>
   parse_gnucash_value ''1.5/2'' = Inr (Dec 75 (- 2)) \<and>
   parse_gnucash_value ''1000000000000000000000000000/1'' = Inl InvalidOperation"
  by (simp add: parse_gnucash_value_def string_eval decimal_eval)

text \<open>
  C3 (amended). A value string that does not split at \<open>/\<close> into exactly two parts yields
  Decimal zero. A value string \<open><int>/<int>\<close> with numerator \<open>n\<close> and denominator \<open>d\<close>:
  if \<open>d\<close> is not zero and the quotient is below \<open>10 ^ 25\<close> in size, the parser raises nothing
  and returns a value with two decimals, which is the quotient itself whenever the quotient is a
  whole number of cents; if \<open>d\<close> is zero it raises DivisionByZero (InvalidOperation when \<open>n\<close>
  is zero as well). A string of two parts of which one is no number raises what \<open>Decimal\<close>
  raises on that part.
\<close>

theorem parse_gnucash_value_cases:
  "(length (split_on CHR ''/'' value_str) \<noteq> 2 \<longrightarrow> parse_gnucash_value value_str = Inr (Dec 0 0)) \<and>
   (\<forall>n d. value_str = int_str n @ ''/'' @ int_str d \<longrightarrow>
      (d = 0 \<longrightarrow> parse_gnucash_value value_str =
                    Inl (if n = 0 then InvalidOperation else DivisionByZero)) \<and>
      (d \<noteq> 0 \<and> \<bar>n\<bar> < 10 ^ 25 * \<bar>d\<bar> \<longrightarrow>
         (\<exists>r. parse_gnucash_value value_str = Inr r \<and> expo r = - 2 \<and>
              ((100 * n) mod d = 0 \<longrightarrow> coeff r = 100 * n div d)))) \<and>
   (\<forall>a b e. value_str = a @ ''/'' @ b \<and> CHR ''/'' \<notin> set a \<and> CHR ''/'' \<notin> set b \<and>
        Decimal_of_str a = Inl e \<longrightarrow> parse_gnucash_value value_str = Inl e) \<and>
   (\<forall>a b x e. value_str = a @ ''/'' @ b \<and> CHR ''/'' \<notin> set a \<and> CHR ''/'' \<notin> set b \<and>
        Decimal_of_str a = Inr x \<and> Decimal_of_str b = Inl e \<longrightarrow>
        parse_gnucash_value value_str = Inl e)"
proof -
  have one: "length (split_on CHR ''/'' value_str) \<noteq> 2 \<longrightarrow>
               parse_gnucash_value value_str = Inr (Dec 0 0)"
    by (simp add: parse_gnucash_value_def)
  have two: "(d = 0 \<longrightarrow> parse_gnucash_value (int_str n @ ''/'' @ int_str d) =
                    Inl (if n = 0 then InvalidOperation else DivisionByZero)) \<and>
      (d \<noteq> 0 \<and> \<bar>n\<bar> < 10 ^ 25 * \<bar>d\<bar> \<longrightarrow>
         (\<exists>r. parse_gnucash_value (int_str n @ ''/'' @ int_str d) = Inr r \<and> expo r = - 2 \<and>
              ((100 * n) mod d = 0 \<longrightarrow> coeff r = 100 * n div d)))" for n d
    using parse_gnucash_value_ints [OF int_str_no_slash [of n] Decimal_of_str_int_str [of n]
        int_str_no_slash [of d] Decimal_of_str_int_str [of d]]
    by blast
  have three: "parse_gnucash_value (a @ ''/'' @ b) = Inl e"
    if "CHR ''/'' \<notin> set a" "CHR ''/'' \<notin> set b" "Decimal_of_str a = Inl e" for a b e
    using that parse_gnucash_value_two [of a b] by simp
  have four: "parse_gnucash_value (a @ ''/'' @ b) = Inl e"
    if "CHR ''/'' \<notin> set a" "CHR ''/'' \<notin> set b" "Decimal_of_str a = Inr x"
      "Decimal_of_str b = Inl e" for a b x e
    using that parse_gnucash_value_two [of a b] by simp
  show ?thesis
  proof (intro conjI)
    show "length (split_on CHR ''/'' value_str) \<noteq> 2 \<longrightarrow>
            parse_gnucash_value value_str = Inr (Dec 0 0)"
      by (rule one)
    show "\<forall>n d. value_str = int_str n @ ''/'' @ int_str d \<longrightarrow>
      (d = 0 \<longrightarrow> parse_gnucash_value value_str =
                    Inl (if n = 0 then InvalidOperation else DivisionByZero)) \<and>
      (d \<noteq> 0 \<and> \<bar>n\<bar> < 10 ^ 25 * \<bar>d\<bar> \<longrightarrow>
         (\<exists>r. parse_gnucash_value value_str = Inr r \<and> expo r = - 2 \<and>
              ((100 * n) mod d = 0 \<longrightarrow> coeff r = 100 * n div d)))"
    proof (intro allI impI)
      fix n d
      assume v: "value_str = int_str n @ ''/'' @ int_str d"
      show "(d = 0 \<longrightarrow> parse_gnucash_value value_str =
                    Inl (if n = 0 then InvalidOperation else DivisionByZero)) \<and>
        (d \<noteq> 0 \<and> \<bar>n\<bar> < 10 ^ 25 * \<bar>d\<bar> \<longrightarrow>
           (\<exists>r. parse_gnucash_value value_str = Inr r \<and> expo r = - 2 \<and>
                ((100 * n) mod d = 0 \<longrightarrow> coeff r = 100 * n div d)))"
        unfolding v by (rule two)
    qed
    show "\<forall>a b e. value_str = a @ ''/'' @ b \<and> CHR ''/'' \<notin> set a \<and> CHR ''/'' \<notin> set b \<and>
        Decimal_of_str a = Inl e \<longrightarrow> parse_gnucash_value value_str = Inl e"
    proof (intro allI impI, elim conjE)
      fix a b e
      assume v: "value_str = a @ ''/'' @ b" and h: "CHR ''/'' \<notin> set a" "CHR ''/'' \<notin> set b"
        "Decimal_of_str a = Inl e"
      show "parse_gnucash_value value_str = Inl e"
        unfolding v by (rule three [OF h])
    qed
    show "\<forall>a b x e. value_str = a @ ''/'' @ b \<and> CHR ''/'' \<notin> set a \<and> CHR ''/'' \<notin> set b \<and>
        Decimal_of_str a = Inr x \<and> Decimal_of_str b = Inl e \<longrightarrow>
        parse_gnucash_value value_str = Inl e"
    proof (intro allI impI, elim conjE)
      fix a b x e
      assume v: "value_str = a @ ''/'' @ b" and h: "CHR ''/'' \<notin> set a" "CHR ''/'' \<notin> set b"
        "Decimal_of_str a = Inr x" "Decimal_of_str b = Inl e"
      show "parse_gnucash_value value_str = Inl e"
        unfolding v by (rule four [OF h])
    qed
  qed
qed

theorem parse_gnucash_value_cases_witness:
  "length (split_on CHR ''/'' ''1/2/3'') \<noteq> 2 \<and>
   parse_gnucash_value ''1/2/3'' = Inr (Dec 0 0) \<and>
   ''12345/100'' = int_str 12345 @ ''/'' @ int_str 100 \<and>
   parse_gnucash_value ''12345/100'' = Inr (Dec 12345 (- 2)) \<and>
   ''-1/3'' = int_str (- 1) @ ''/'' @ int_str 3 \<and>
   parse_gnucash_value ''-1/3'' = Inr (Dec (- 33) (- 2)) \<and>
   ''0/0'' = int_str 0 @ ''/'' @ int_str 0 \<and>
   parse_gnucash_value ''0/0'' = Inl InvalidOperation"
proof -
  have h1: "length (split_on CHR ''/'' ''1/2/3'') \<noteq> 2" by simp
  have s1: "''12345/100'' = int_str 12345 @ ''/'' @ int_str 100"
    by (simp add: int_str_def digits_of.simps char_of_def bit_iff_odd)
  have s2: "''-1/3'' = int_str (- 1) @ ''/'' @ int_str 3"
    by (simp add: int_str_def digits_of.simps char_of_def bit_iff_odd)
  have s3: "''0/0'' = int_str 0 @ ''/'' @ int_str 0"
    by (simp add: int_str_def digits_of.simps char_of_def bit_iff_odd)
  note t1 = parse_gnucash_value_cases [of "''1/2/3''"]
  note t2 = parse_gnucash_value_cases [of "''12345/100''"]
  note t3 = parse_gnucash_value_cases [of "''-1/3''"]
  note t4 = parse_gnucash_value_cases [of "''0/0''"]
  from t1 h1 have c1: "parse_gnucash_value ''1/2/3'' = Inr (Dec 0 0)" by blast
  have "(100::int) \<noteq> 0 \<and> \<bar>12345::int\<bar> < 10 ^ 25 * \<bar>100\<bar>" by simp
  with t2 s1 obtain r where r: "parse_gnucash_value ''12345/100'' = Inr r" "expo r = - 2"
      "(100 * 12345) mod (100::int) = 0 \<longrightarrow> coeff r = 100 * 12345 div 100"
    by blast
  then have "coeff r = 12345" by simp
  with r(2) have "r = Dec 12345 (- 2)" by (cases r) simp
  with r(1) have c2: "parse_gnucash_value ''12345/100'' = Inr (Dec 12345 (- 2))" by simp
  have c3: "parse_gnucash_value ''-1/3'' = Inr (Dec (- 33) (- 2))"
    by (simp add: parse_gnucash_value_def string_eval decimal_eval)
  from t4 s3 have c4: "parse_gnucash_value ''0/0'' = Inl InvalidOperation" by auto
  from h1 c1 s1 c2 s2 c3 s3 c4 show ?thesis by blast
qed

lemma parse_gnucash_value_example:
  "parse_gnucash_value ''12345/100'' = Inr (Dec 12345 (- 2)) \<and>
   parse_gnucash_value ''-1/3'' = Inr (Dec (- 33) (- 2))"
  by (simp add: parse_gnucash_value_def string_eval decimal_eval)

section \<open>Properties of the operator of an ACCOUNT line\<close>

lemma find_operation_first:
  "find (\<lambda>op. op \<in> set g) ops = Some op \<Longrightarrow>
   find_operation ops g =
     (case parse_operation (op # snd (split_first op g)) of
        Inl e \<Rightarrow> Inl e
      | Inr opn \<Rightarrow> Inr (strip (fst (split_first op g)), opn))"
  by (induction ops) (auto split: if_splits)

lemma account_operation_no_break_space:
  "account_operation (''abc'' @ [CHR 0xA0] @ ''* 5'') = Inr (''abc'', Some (''*'', Dec 5 0)) \<and>
   account_operation (''abc *'' @ [CHR 0xA0] @ ''5'') = Inr (''abc'', Some (''*'', Dec 5 0))"
  by (simp add: account_operation_def split_first_def parse_operation_def string_eval)

text \<open>
  C2 (counterexample). In \<open>abc - +5\<close> the first operator character from the left is \<open>-\<close>,
  but the parser takes \<open>+\<close>, which comes earlier in its list of operators: the account id
  becomes \<open>abc -\<close> and the operation \<open>+ 5\<close>.
\<close>

theorem account_operation_position_counterexample:
  "first_operator_by_position ''abc - +5'' = Some CHR ''-'' \<and>
   account_operation ''abc - +5'' = Inr (''abc -'', Some (''+'', Dec 5 0))"
  by (simp add: first_operator_by_position_def account_operation_def split_first_def
      parse_operation_def string_eval)

text \<open>
  C2 (amended). When the id-and-operation substring contains one of \<open>* / + - %\<close>, the
  operator is the first character of the list \<open>* / + - %\<close>, in this order, that occurs
  anywhere in the substring. The substring is split at the first occurrence of that
  character: the stripped text before it is the account id, the text after it is the operand.
  An operand text \<open>lit%\<close> is \<open>Decimal(lit) / 100\<close>, any other operand text \<open>lit\<close> is
  \<open>Decimal(lit)\<close>.
\<close>

theorem account_operation_priority:
  assumes "find (\<lambda>op. op \<in> set g) ''*/+-%'' = Some op"
  shows "account_operation g =
           (case parse_operation (op # tl (dropWhile (\<lambda>c. c \<noteq> op) g)) of
              Inl e \<Rightarrow> Inl e
            | Inr opn \<Rightarrow> Inr (strip (takeWhile (\<lambda>c. c \<noteq> op) g), opn)) \<and>
         (\<forall>lit d. lit \<noteq> [] \<and> (\<forall>c \<in> set lit. \<not> is_space c) \<and> Decimal_of_str lit = Inr d \<longrightarrow>
            parse_operation (op # '' '' @ lit @ ''%'') =
              (case ddiv d (Dec 100 0) of Inl e \<Rightarrow> Inl e | Inr v \<Rightarrow> Inr (Some ([op], v))) \<and>
            (last lit \<noteq> CHR ''%'' \<longrightarrow> parse_operation (op # '' '' @ lit) = Inr (Some ([op], d))))"
proof -
  from assms have op: "op \<in> set ''*/%+-''"
    by (auto split: if_splits)
  then have nsp: "\<not> is_space op"
    by (auto simp: is_space_def)
  have first: "account_operation g =
           (case parse_operation (op # tl (dropWhile (\<lambda>c. c \<noteq> op) g)) of
              Inl e \<Rightarrow> Inl e
            | Inr opn \<Rightarrow> Inr (strip (takeWhile (\<lambda>c. c \<noteq> op) g), opn))"
    by (simp only: account_operation_def find_operation_first [OF assms] split_first_def
        fst_conv snd_conv)
  have second: "parse_operation (op # '' '' @ lit @ ''%'') =
              (case ddiv d (Dec 100 0) of Inl e \<Rightarrow> Inl e | Inr v \<Rightarrow> Inr (Some ([op], v))) \<and>
            (last lit \<noteq> CHR ''%'' \<longrightarrow> parse_operation (op # '' '' @ lit) = Inr (Some ([op], d)))"
    if lit: "lit \<noteq> []" "\<forall>c \<in> set lit. \<not> is_space c" "Decimal_of_str lit = Inr d" for lit d
  proof -
    have pc: "\<not> is_space CHR ''%''" by (simp add: is_space_def)
    have nl: "\<forall>c \<in> set lit. c \<noteq> CHR 0x0A"
      using lit(2) by (auto simp: is_space_def)
    have hd_lit: "\<not> is_space (hd lit)" and last_lit: "\<not> is_space (last lit)"
      using lit(1,2) by auto
    have s1: "strip (op # '' '' @ lit @ ''%'') = op # '' '' @ lit @ ''%''"
      using nsp pc by (intro strip_no_space_ends) auto
    have s2: "strip (op # '' '' @ lit) = op # '' '' @ lit"
      using nsp last_lit lit(1) by (intro strip_no_space_ends) auto
    have d1: "dropWhile is_space ('' '' @ lit @ ''%'') = lit @ ''%''"
      using hd_lit lit(1) by (cases lit) (auto simp: is_space_def)
    have d2: "dropWhile is_space ('' '' @ lit) = lit"
      using hd_lit lit(1) by (cases lit) (auto simp: is_space_def)
    have t1: "takeWhile (\<lambda>x. x \<noteq> CHR 0x0A) (lit @ ''%'') = lit @ ''%''"
      using nl by auto
    have t2: "takeWhile (\<lambda>x. x \<noteq> CHR 0x0A) lit = lit"
      using nl by auto
    have s3: "strip (lit @ ''%'') = lit @ ''%''"
      using hd_lit pc lit(1) by (intro strip_no_space_ends) (auto simp: hd_append)
    have s4: "strip lit = lit"
      using hd_lit last_lit lit(1) by (intro strip_no_space_ends) auto
    have a: "parse_operation (op # '' '' @ lit @ ''%'') =
              (case ddiv d (Dec 100 0) of Inl e \<Rightarrow> Inl e | Inr v \<Rightarrow> Inr (Some ([op], v)))"
      unfolding parse_operation_def s1 using op lit(3)
      by (simp add: d1 [simplified] t1 [simplified] s3 [simplified] Let_def)
    have b: "parse_operation (op # '' '' @ lit) = Inr (Some ([op], d))" if "last lit \<noteq> CHR ''%''"
      unfolding parse_operation_def s2 using op lit(1,3) that
      by (simp add: d2 [simplified] t2 s4 Let_def)
    from a b show ?thesis by blast
  qed
  from first second show ?thesis by blast
qed

theorem account_operation_priority_witness:
  "find (\<lambda>op. op \<in> set ''abc * 90%'') ''*/+-%'' = Some CHR ''*'' \<and>
   account_operation ''abc * 90%'' = Inr (''abc'', Some (''*'', Dec 9 (- 1))) \<and>
   parse_operation ''* 90%'' = Inr (Some (''*'', Dec 9 (- 1)))"
proof -
  have h: "find (\<lambda>op. op \<in> set ''abc * 90%'') ''*/+-%'' = Some CHR ''*''" by simp
  have d: "Decimal_of_str ''90'' = Inr (Dec 90 0)" by (simp add: string_eval)
  have q: "ddiv (Dec 90 0) (Dec 100 0) = Inr (Dec 9 (- 1))" by (simp add: decimal_eval)
  have l: "''90'' \<noteq> [] \<and> (\<forall>c \<in> set ''90''. \<not> is_space c)" by (simp add: is_space_def)
  from account_operation_priority [OF h] l d
  have p: "parse_operation (CHR ''*'' # '' '' @ ''90'' @ ''%'') =
             (case ddiv (Dec 90 0) (Dec 100 0) of Inl e \<Rightarrow> Inl e | Inr v \<Rightarrow> Inr (Some (''*'', v)))"
    by blast
  then have p': "parse_operation ''* 90%'' = Inr (Some (''*'', Dec 9 (- 1)))"
    by (simp add: q)
  from account_operation_priority [OF h]
  have "account_operation ''abc * 90%'' =
           (case parse_operation (CHR ''*'' # tl (dropWhile (\<lambda>c. c \<noteq> CHR ''*'') ''abc * 90%'')) of
              Inl e \<Rightarrow> Inl e
            | Inr opn \<Rightarrow> Inr (strip (takeWhile (\<lambda>c. c \<noteq> CHR ''*'') ''abc * 90%''), opn))"
    by blast
  then have "account_operation ''abc * 90%'' = Inr (''abc'', Some (''*'', Dec 9 (- 1)))"
    by (simp add: p' strip_def is_space_def)
  with h p' show ?thesis by blast
qed

section \<open>Properties of \<open>get_period_ranges\<close>\<close>

lemmas date_eval =
  get_period_ranges_def monthly_ranges.simps quarterly_ranges.simps make_date_def date_le_def
  date_max_def date_min_def days_in_month_def is_leap_def

text \<open>
  C4 (the code at a failing input). From 15 January to 10 March 2025 the monthly loop
  keeps the day 15 in \<open>current_date\<close>: after February it stands at 15 March, which is past
  the end date, so the loop stops and the days 1 to 10 March are in no period. The last
  period ends on 28 February, not on the end date. From 31 January the loop fails
  altogether, since 31 February is no date.
\<close>

theorem get_period_ranges_monthly_drops_last_month:
  "get_period_ranges \<lparr>year = 2025, month = 1, day = 15\<rparr> \<lparr>year = 2025, month = 3, day = 10\<rparr> ''m''
     = Inr [(\<lparr>year = 2025, month = 1, day = 15\<rparr>, \<lparr>year = 2025, month = 1, day = 31\<rparr>),
            (\<lparr>year = 2025, month = 2, day = 1\<rparr>, \<lparr>year = 2025, month = 2, day = 28\<rparr>)] \<and>
   get_period_ranges \<lparr>year = 2025, month = 1, day = 31\<rparr> \<lparr>year = 2025, month = 3, day = 31\<rparr> ''m''
     = Inl ValueError"
  by (simp add: date_eval)

section \<open>Properties of \<open>calculate_sum_values\<close>\<close>

lemma add_values_eq:
  "length sums = n \<Longrightarrow> n \<le> length vals \<Longrightarrow> p \<le> n \<Longrightarrow>
   add_values p n sums vals = Inr (take p sums @ map (\<lambda>i. dadd (sums ! i) (vals ! i)) [p..<n])"
proof (induction p n sums vals rule: add_values.induct)
  case (1 p n sums vals)
  show ?case
  proof (cases "p < n")
    case True
    let ?s = "sums[p := dadd (sums ! p) (vals ! p)]"
    have "add_values p n sums vals = add_values (Suc p) n ?s vals"
      using True 1(2,3) by (subst add_values.simps) simp
    also have "\<dots> = Inr (take (Suc p) ?s @ map (\<lambda>i. dadd (?s ! i) (vals ! i)) [Suc p..<n])"
      using True 1 by simp
    also have "take (Suc p) ?s = take p sums @ [dadd (sums ! p) (vals ! p)]"
      using True 1(2) by (simp add: take_Suc_conv_app_nth)
    also have "map (\<lambda>i. dadd (?s ! i) (vals ! i)) [Suc p..<n] = map (\<lambda>i. dadd (sums ! i) (vals ! i)) [Suc p..<n]"
      by auto
    finally show ?thesis using True by (simp add: upt_conv_Cons)
  next
    case False
    with 1(2,4) show ?thesis by (subst add_values.simps) simp
  qed
qed

lemma add_values_0:
  "length sums = n \<Longrightarrow> n \<le> length vals \<Longrightarrow>
   add_values 0 n sums vals = Inr (map (\<lambda>i. dadd (sums ! i) (vals ! i)) [0..<n])"
  using add_values_eq [of sums n vals 0] by simp

lemma sum_scope_series_0: "sum_scope_series 0 elements stored = []"
  by (simp add: sum_scope_series_def sum_scope_def)

lemma sum_scope_series_Suc:
  "sum_scope_series (Suc i) elements stored =
     (if is_scope_boundary (kind (elements ! i)) then []
      else (case scope_series elements stored i of
              None \<Rightarrow> sum_scope_series i elements stored
            | Some vals \<Rightarrow> vals # sum_scope_series i elements stored))"
  by (simp add: sum_scope_series_def sum_scope_def split: option.split)

lemma sum_scan_eq:
  "length sums = n \<Longrightarrow> \<forall>vals \<in> set (sum_scope_series k elements stored). n \<le> length vals \<Longrightarrow>
   sum_scan k elements stored n sums =
     Inr (map (\<lambda>p. foldl dadd (sums ! p) (map (\<lambda>vals. vals ! p) (sum_scope_series k elements stored)))
          [0..<n])"
proof (induction k arbitrary: sums)
  case 0
  then have "map ((!) sums) [0..<n] = sums"
    using map_nth [of sums] by simp
  then show ?case by (simp add: sum_scope_series_0)
next
  case (Suc i)
  note step = sum_scope_series_Suc [of i elements stored]
  show ?case
  proof (cases "kind (elements ! i)")
    case (SectionElement t)
    then have "sum_scope_series (Suc i) elements stored = sum_scope_series i elements stored"
      by (simp add: step is_scope_boundary_def scope_series_def)
    with SectionElement Suc show ?thesis by simp
  next
    case BlankElement
    then have "sum_scope_series (Suc i) elements stored = sum_scope_series i elements stored"
      by (simp add: step is_scope_boundary_def scope_series_def)
    with BlankElement Suc show ?thesis by simp
  next
    case (TitleElement t)
    then have "sum_scope_series (Suc i) elements stored = []"
      by (simp add: step is_scope_boundary_def)
    moreover have "map ((!) sums) [0..<n] = sums"
      using map_nth [of sums] Suc.prems(1) by simp
    ultimately show ?thesis using TitleElement by simp
  next
    case (SumElement t)
    then have "sum_scope_series (Suc i) elements stored = []"
      by (simp add: step is_scope_boundary_def)
    moreover have "map ((!) sums) [0..<n] = sums"
      using map_nth [of sums] Suc.prems(1) by simp
    ultimately show ?thesis using SumElement by simp
  next
    case (CalcElement t f)
    then have "sum_scope_series (Suc i) elements stored = []"
      by (simp add: step is_scope_boundary_def)
    moreover have "map ((!) sums) [0..<n] = sums"
      using map_nth [of sums] Suc.prems(1) by simp
    ultimately show ?thesis using CalcElement by simp
  next
    case (AccountElement a)
    show ?thesis
    proof (cases "account_values stored i")
      case None
      with AccountElement
      have "sum_scope_series (Suc i) elements stored = sum_scope_series i elements stored"
        by (simp add: step is_scope_boundary_def scope_series_def)
      with AccountElement None Suc show ?thesis by simp
    next
      case (Some r)
      with AccountElement
      have sc: "sum_scope_series (Suc i) elements stored = final r # sum_scope_series i elements stored"
        by (simp add: step is_scope_boundary_def scope_series_def)
      let ?s = "map (\<lambda>i. dadd (sums ! i) (final r ! i)) [0..<n]"
      from sc Suc.prems(2) have len: "n \<le> length (final r)"
        and rest: "\<forall>vals \<in> set (sum_scope_series i elements stored). n \<le> length vals"
        by simp_all
      have "sum_scan i elements stored n ?s =
              Inr (map (\<lambda>p. foldl dadd (?s ! p)
                     (map (\<lambda>vals. vals ! p) (sum_scope_series i elements stored))) [0..<n])"
        using rest by (intro Suc.IH) simp_all
      with AccountElement Some Suc.prems(1) len show ?thesis
        by (simp add: sc add_values_0)
    qed
  next
    case (PlaceholderElement d vals)
    then have sc: "sum_scope_series (Suc i) elements stored = vals # sum_scope_series i elements stored"
      by (simp add: step is_scope_boundary_def scope_series_def)
    let ?s = "map (\<lambda>i. dadd (sums ! i) (vals ! i)) [0..<n]"
    from sc Suc.prems(2) have len: "n \<le> length vals"
      and rest: "\<forall>vals \<in> set (sum_scope_series i elements stored). n \<le> length vals"
      by simp_all
    have "sum_scan i elements stored n ?s =
            Inr (map (\<lambda>p. foldl dadd (?s ! p)
                   (map (\<lambda>vals. vals ! p) (sum_scope_series i elements stored))) [0..<n])"
      using rest by (intro Suc.IH) simp_all
    with PlaceholderElement Suc.prems(1) len show ?thesis
      by (simp add: sc add_values_0)
  qed
qed

text \<open>
  C5. For every SUM element and every period, the SUM's value is the sum, taken backward from
  the element just before the SUM, of the \<open>final\<close> series of the Account elements and of the
  literal values of the Placeholder elements, up to and excluding the first Title, Sum or Calc
  element, Section and Blank elements being passed over. (The hypothesis says that every
  series in the scope has a value for every period; otherwise the code raises IndexError.)
\<close>

theorem calculate_sum_values_scope:
  assumes "\<forall>vals \<in> set (sum_scope_series elem_idx elements stored). num_periods \<le> length vals"
  shows "calculate_sum_values elem_idx elements stored num_periods =
           Inr (map (sum_spec elem_idx elements stored) [0..<num_periods])"
  using sum_scan_eq [of "replicate num_periods (Dec 0 0)" num_periods elem_idx elements stored] assms
  by (simp add: calculate_sum_values_def sum_spec_def cong: map_cong)

theorem calculate_sum_values_scope_witness:
  "sum_scope_series 4 example_elements example_stored =
     [[Dec 100 0, Dec 250 (- 1)], [Dec 1000 (- 2), Dec 2000 (- 2)]] \<and>
   calculate_sum_values 4 example_elements example_stored 2 =
     Inr (map (sum_spec 4 example_elements example_stored) [0..<2]) \<and>
   map (sum_spec 4 example_elements example_stored) [0..<2] = [Dec 11000 (- 2), Dec 4500 (- 2)]"
proof -
  have s: "sum_scope_series 4 example_elements example_stored =
             [[Dec 100 0, Dec 250 (- 1)], [Dec 1000 (- 2), Dec 2000 (- 2)]]"
    by (simp add: eval_nat_numeral sum_scope_series_Suc sum_scope_series_0 scope_series_def
        is_scope_boundary_def example_elements_def example_stored_def)
  have h: "\<forall>vals \<in> set (sum_scope_series 4 example_elements example_stored). 2 \<le> length vals"
    by (simp add: s)
  have v: "map (sum_spec 4 example_elements example_stored) [0..<2] = [Dec 11000 (- 2), Dec 4500 (- 2)]"
  proof -
    have r: "[0..<2] = [0, Suc 0]" by (simp add: eval_nat_numeral)
    show ?thesis by (simp add: r sum_spec_def s decimal_eval)
  qed
  from calculate_sum_values_scope [OF h] s v show ?thesis by blast
qed

section \<open>Properties of \<open>calculate_account_values\<close>\<close>

lemma zero_neutral_0: "zero_neutral (Dec 0 0)"
  by (simp add: zero_neutral_def ndigits.simps prec_def)

lemma zero_neutral_dadd:
  assumes "expo v \<le> 0"
  shows "zero_neutral (dadd z v)"
proof -
  define e where "e = min (expo z) (expo v)"
  define X where "X = coeff z * 10 ^ nat (expo z - e) + coeff v * 10 ^ nat (expo v - e)"
  have d: "dadd z v = ctx_fix (Dec X e)"
    by (simp add: dadd_def Let_def e_def X_def)
  from assms have "e \<le> 0" by (simp add: e_def)
  with ctx_fix_digits [of "Dec X e"] show ?thesis
    unfolding d zero_neutral_def by auto
qed

lemma dadd_zero:
  assumes "zero_neutral z"
  shows "dadd z (Dec 0 0) = z"
proof (cases "expo z \<le> 0")
  case True
  then have "dadd z (Dec 0 0) = ctx_fix (Dec (coeff z) (expo z))"
    by (simp add: dadd_def Let_def min_def)
  also have "\<dots> = z"
    using assms by (simp add: ctx_fix_def Let_def zero_neutral_def)
  finally show ?thesis .
next
  case False
  define k where "k = nat (expo z)"
  define a where "a = nat \<bar>coeff z\<bar>"
  from False assms have n: "ndigits a = 28"
    by (simp add: zero_neutral_def prec_def a_def)
  then have apos: "0 < a" by (simp add: ndigits_28)
  have "nat \<bar>coeff z * 10 ^ k\<bar> = a * 10 ^ k"
    by (simp add: a_def abs_mult nat_mult_distrib nat_power_eq)
  then have nk: "ndigits (nat \<bar>coeff z * 10 ^ k\<bar>) = 28 + k"
    using ndigits_mult_power [OF apos, of k] n by simp
  from False have "dadd z (Dec 0 0) = ctx_fix (Dec (coeff z * 10 ^ k) 0)"
    by (simp add: dadd_def Let_def min_def k_def)
  also have "\<dots> = Dec (coeff z) (int k)"
    using nk n by (simp add: ctx_fix_def Let_def prec_def round_half_even_exact a_def)
  also have "\<dots> = z"
    using False by (simp add: k_def)
  finally show ?thesis .
qed

lemma add_values_Inr_length:
  "add_values p n s vals = Inr s' \<Longrightarrow> p < n \<Longrightarrow> n \<le> length vals"
proof (induction p n s vals rule: add_values.induct)
  case (1 p n s vals)
  from 1(2,3) have in_range: "p < length vals \<and> p < length s"
    by (subst (asm) add_values.simps) (simp split: if_splits)
  show ?case
  proof (cases "Suc p < n")
    case True
    from 1(2,3) in_range
    have "add_values (Suc p) n (s[p := dadd (s ! p) (vals ! p)]) vals = Inr s'"
      by (subst (asm) add_values.simps) simp
    with 1(1) 1(3) in_range True show ?thesis by simp
  next
    case False
    with 1(3) in_range show ?thesis by simp
  qed
qed

lemma add_values_zero_neutral:
  assumes "add_values 0 n s vals = Inr s'" and "length s = n"
    and "\<forall>v \<in> set vals. expo v \<le> 0"
  shows "length s' = n \<and> (\<forall>z \<in> set s'. zero_neutral z)"
proof (cases "n = 0")
  case True
  with assms(1,2) show ?thesis by (subst (asm) add_values.simps) simp
next
  case False
  with add_values_Inr_length [OF assms(1)] have len: "n \<le> length vals" by simp
  from add_values_0 [OF assms(2) len] assms(1)
  have s': "s' = map (\<lambda>i. dadd (s ! i) (vals ! i)) [0..<n]" by simp
  have "zero_neutral (dadd (s ! i) (vals ! i))" if "i < n" for i
  proof -
    from that len have "vals ! i \<in> set vals" by simp
    with assms(3) show ?thesis by (simp add: zero_neutral_dadd)
  qed
  then show ?thesis by (simp add: s')
qed

lemma add_values_zeros:
  assumes "length s = n" and "\<forall>z \<in> set s. zero_neutral z"
  shows "add_values 0 n s (replicate n (Dec 0 0)) = Inr s"
proof -
  have "map (\<lambda>i. dadd (s ! i) (replicate n (Dec 0 0) ! i)) [0..<n] = map ((!) s) [0..<n]"
    using assms by (intro map_cong) (simp_all add: dadd_zero)
  also have "\<dots> = s" using assms(1) map_nth [of s] by simp
  finally show ?thesis using add_values_0 [of s n "replicate n (Dec 0 0)"] assms(1) by simp
qed

lemma sum_scan_zero_series:
  assumes "account_values stored idx = Some r" and "final r = replicate n (Dec 0 0)"
    and "account_values st idx = None"
    and "\<And>i. i \<noteq> idx \<Longrightarrow> account_values st i = account_values stored i"
  shows "length s = n \<Longrightarrow> \<forall>z \<in> set s. zero_neutral z \<Longrightarrow>
         \<forall>vals \<in> set (sum_scope_series k elements stored). \<forall>v \<in> set vals. expo v \<le> 0 \<Longrightarrow>
         sum_scan k elements stored n s =
           sum_scan k elements st n s"
proof (induction k arbitrary: s)
  case 0
  show ?case by simp
next
  case (Suc i)
  note step = sum_scope_series_Suc [of i elements stored]
  show ?case
  proof (cases "kind (elements ! i)")
    case (SectionElement t)
    then have "sum_scope_series (Suc i) elements stored = sum_scope_series i elements stored"
      by (simp add: step is_scope_boundary_def scope_series_def)
    with SectionElement Suc show ?thesis by simp
  next
    case BlankElement
    then have "sum_scope_series (Suc i) elements stored = sum_scope_series i elements stored"
      by (simp add: step is_scope_boundary_def scope_series_def)
    with BlankElement Suc show ?thesis by simp
  next
    case (TitleElement t)
    then show ?thesis by simp
  next
    case (SumElement t)
    then show ?thesis by simp
  next
    case (CalcElement t f)
    then show ?thesis by simp
  next
    case (PlaceholderElement d vals)
    then have sc: "sum_scope_series (Suc i) elements stored = vals # sum_scope_series i elements stored"
      by (simp add: step is_scope_boundary_def scope_series_def)
    from sc Suc.prems(3) have ev: "\<forall>v \<in> set vals. expo v \<le> 0"
      and rest: "\<forall>vals \<in> set (sum_scope_series i elements stored). \<forall>v \<in> set vals. expo v \<le> 0"
      by simp_all
    show ?thesis
    proof (cases "add_values 0 n s vals")
      case (Inl e)
      with PlaceholderElement show ?thesis by simp
    next
      case (Inr s')
      from add_values_zero_neutral [OF Inr Suc.prems(1) ev]
      have "sum_scan i elements stored n s' = sum_scan i elements st n s'"
        using rest by (intro Suc.IH) simp_all
      with PlaceholderElement Inr show ?thesis by simp
    qed
  next
    case (AccountElement a)
    show ?thesis
    proof (cases "account_values stored i")
      case None
      with AccountElement
      have "sum_scope_series (Suc i) elements stored = sum_scope_series i elements stored"
        by (simp add: step is_scope_boundary_def scope_series_def)
      with Suc have "sum_scan i elements stored n s = sum_scan i elements st n s" by simp
      moreover have "account_values st i = None"
        using None assms(3) assms(4) [of i] by (cases "i = idx") simp_all
      ultimately show ?thesis using AccountElement None by simp
    next
      case (Some r')
      with AccountElement
      have sc: "sum_scope_series (Suc i) elements stored = final r' # sum_scope_series i elements stored"
        by (simp add: step is_scope_boundary_def scope_series_def)
      from sc Suc.prems(3) have ev: "\<forall>v \<in> set (final r'). expo v \<le> 0"
        and rest: "\<forall>vals \<in> set (sum_scope_series i elements stored). \<forall>v \<in> set vals. expo v \<le> 0"
        by simp_all
      show ?thesis
      proof (cases "i = idx")
        case True
        with Some assms(1,2) have "add_values 0 n s (final r') = Inr s"
          using add_values_zeros [OF Suc.prems(1,2)] by simp
        moreover have "sum_scan i elements stored n s = sum_scan i elements st n s"
          using Suc.prems(1,2) rest by (intro Suc.IH) simp_all
        ultimately show ?thesis using AccountElement Some True assms(3) by simp
      next
        case False
        show ?thesis
        proof (cases "add_values 0 n s (final r')")
          case (Inl e)
          with AccountElement Some False assms(4) [of i] show ?thesis by simp
        next
          case (Inr s')
          from add_values_zero_neutral [OF Inr Suc.prems(1) ev]
          have "sum_scan i elements stored n s' = sum_scan i elements st n s'"
            using rest by (intro Suc.IH) simp_all
          with AccountElement Some False Inr assms(4) [of i] show ?thesis by simp
        qed
      qed
    qed
  qed
qed

text \<open>
  C8. For an Account element whose id is not in the account registry,
  \<open>calculate_account_values\<close> raises nothing and returns zero for every period in \<open>raw\<close> and
  in \<open>final\<close>, with \<open>valid\<close> false and no other key; and a SUM computed from stored values
  that hold this result for an element is the SUM computed as if the element had no stored
  values at all. (The equality of the two sums is digit for digit; it is proved for a scope
  whose values have no positive exponent, which is what the value parser and the rounding of
  \<open>apply_operation\<close> produce.)
\<close>

theorem calculate_account_values_missing_account:
  assumes "map_of accounts (guid elem) = None"
  shows "calculate_account_values elem period_ranges accounts config transaction_cache
             filtered_caches recursion_limit =
           Inr \<lparr>raw = replicate (length period_ranges) (Dec 0 0), filtered = None,
                regex_filtered = None, final = replicate (length period_ranges) (Dec 0 0),
                valid = False\<rparr> \<and>
         (\<forall>r elements stored idx sum_idx.
            calculate_account_values elem period_ranges accounts config transaction_cache
                filtered_caches recursion_limit = Inr r \<and>
            account_values stored idx = Some r \<and>
            (\<forall>vals \<in> set (sum_scope_series sum_idx elements stored). \<forall>v \<in> set vals. expo v \<le> 0)
            \<longrightarrow> calculate_sum_values sum_idx elements stored (length period_ranges) =
                  calculate_sum_values sum_idx elements
                    (stored\<lparr>account_values := (account_values stored)(idx := None)\<rparr>)
                    (length period_ranges))"
proof -
  let ?n = "length period_ranges"
  let ?zero = "\<lparr>raw = replicate ?n (Dec 0 0), filtered = None, regex_filtered = None,
                final = replicate ?n (Dec 0 0), valid = False\<rparr>"
  have res: "calculate_account_values elem period_ranges accounts config transaction_cache
               filtered_caches recursion_limit = Inr ?zero"
    using assms by (simp add: calculate_account_values_def Let_def)
  have "calculate_sum_values sum_idx elements stored ?n =
          calculate_sum_values sum_idx elements
            (stored\<lparr>account_values := (account_values stored)(idx := None)\<rparr>) ?n"
    if st: "account_values stored idx = Some ?zero"
      and ex: "\<forall>vals \<in> set (sum_scope_series sum_idx elements stored). \<forall>v \<in> set vals. expo v \<le> 0"
    for elements stored idx sum_idx
    unfolding calculate_sum_values_def
    using ex by (intro sum_scan_zero_series [OF st]) (simp_all add: zero_neutral_0)
  with res show ?thesis by auto
qed

theorem calculate_account_values_missing_account_witness:
  "map_of example_accounts (guid example_missing) = None \<and>
   calculate_account_values example_missing example_periods example_accounts example_config
       Map.empty Map.empty 1000 =
     Inr \<lparr>raw = [Dec 0 0, Dec 0 0], filtered = None, regex_filtered = None,
          final = [Dec 0 0, Dec 0 0], valid = False\<rparr> \<and>
   calculate_sum_values 4 example_elements_missing example_stored_missing 2 =
     calculate_sum_values 4 example_elements_missing
       (example_stored_missing\<lparr>account_values := (account_values example_stored_missing)(2 := None)\<rparr>) 2 \<and>
   sum_scope_series 4 example_elements_missing example_stored_missing =
     [[Dec 100 0, Dec 250 (- 1)], [Dec 0 0, Dec 0 0], [Dec 1000 (- 2), Dec 2000 (- 2)]]"
proof -
  have h: "map_of example_accounts (guid example_missing) = None"
    by (simp add: example_accounts_def example_missing_def)
  have l: "length example_periods = 2" by (simp add: example_periods_def)
  have r2: "replicate 2 (Dec 0 0) = [Dec 0 0, Dec 0 0]" by (simp add: eval_nat_numeral)
  have s: "sum_scope_series 4 example_elements_missing example_stored_missing =
             [[Dec 100 0, Dec 250 (- 1)], [Dec 0 0, Dec 0 0], [Dec 1000 (- 2), Dec 2000 (- 2)]]"
    by (simp add: eval_nat_numeral sum_scope_series_Suc sum_scope_series_0 scope_series_def
        is_scope_boundary_def example_elements_missing_def example_stored_missing_def)
  have st: "account_values example_stored_missing 2 =
              Some \<lparr>raw = [Dec 0 0, Dec 0 0], filtered = None, regex_filtered = None,
                    final = [Dec 0 0, Dec 0 0], valid = False\<rparr>"
    by (simp add: example_stored_missing_def)
  have e: "\<forall>vals \<in> set (sum_scope_series 4 example_elements_missing example_stored_missing).
             \<forall>v \<in> set vals. expo v \<le> 0"
    by (simp add: s)
  note t = calculate_account_values_missing_account [OF h, of example_periods example_config
      Map.empty Map.empty 1000, unfolded l r2]
  from t have a: "calculate_account_values example_missing example_periods example_accounts
        example_config Map.empty Map.empty 1000 =
      Inr \<lparr>raw = [Dec 0 0, Dec 0 0], filtered = None, regex_filtered = None,
           final = [Dec 0 0, Dec 0 0], valid = False\<rparr>"
    by blast
  from t a st e have "calculate_sum_values 4 example_elements_missing example_stored_missing 2 =
     calculate_sum_values 4 example_elements_missing
       (example_stored_missing\<lparr>account_values := (account_values example_stored_missing)(2 := None)\<rparr>) 2"
    by blast
  with h a s show ?thesis by blast
qed

end
